theory Spec2Isabelle
  imports Complex_Main "HOL-Library.Word"
begin

section \<open>Rasters\<close>

text \<open>
  An image is the object \<^verbatim>\<open>{ width, height, data }\<close> of the engine, where
  \<^verbatim>\<open>data\<close> is a \<^verbatim>\<open>Uint8ClampedArray\<close> of interleaved R, G, B, A bytes in row-major
  order. The byte of channel \<open>k\<close> of the pixel \<open>(x, y)\<close> sits at index
  \<open>(y * width + x) * 4 + k\<close>.
\<close>

type_synonym u8 = "8 word"

record ImageData =
  width :: nat
  height :: nat
  data :: "u8 list"

text \<open>
  A read of a typed array outside its range yields \<^verbatim>\<open>undefined\<close>, modelled by \<open>None\<close>.
\<close>

definition rd :: "u8 list \<Rightarrow> nat \<Rightarrow> u8 option" where
  "rd d i = (if i < length d then Some (d ! i) else None)"

text \<open>
  A store into a \<^verbatim>\<open>Uint8ClampedArray\<close>: \<^verbatim>\<open>undefined\<close> is converted to \<^verbatim>\<open>NaN\<close> and stored
  as 0; a store outside the range of the array is ignored (as \<open>list_update\<close> does).
\<close>

definition to_u8 :: "u8 option \<Rightarrow> u8" where
  "to_u8 v = (case v of Some b \<Rightarrow> b | None \<Rightarrow> 0)"

definition wr :: "u8 list \<Rightarrow> nat \<Rightarrow> u8 option \<Rightarrow> u8 list" where
  "wr d i v = d[i := to_u8 v]"

text \<open>The comparisons \<^verbatim>\<open>v > 0\<close> and \<^verbatim>\<open>v === 0\<close> on a value read from an array.\<close>

definition gt0 :: "u8 option \<Rightarrow> bool" where
  "gt0 v = (case v of Some b \<Rightarrow> 0 < b | None \<Rightarrow> False)"

definition is0 :: "u8 option \<Rightarrow> bool" where
  "is0 v = (v = Some 0)"

text \<open>\<^verbatim>\<open>createImageData(width, height)\<close>: a fresh buffer filled with zeros.\<close>

definition createImageData :: "nat \<Rightarrow> nat \<Rightarrow> ImageData" where
  "createImageData w h = \<lparr>width = w, height = h, data = replicate (w * h * 4) 0\<rparr>"

text \<open>
  The loop header shared by every pixel scan of the engine:
  \<^verbatim>\<open>for (y = 0; y < height; y++) for (x = 0; x < width; x++) { ... }\<close>,
  threading the buffer that the body writes.
\<close>

definition for_each_pixel :: "nat \<Rightarrow> nat \<Rightarrow> (nat \<Rightarrow> nat \<Rightarrow> 'a \<Rightarrow> 'a) \<Rightarrow> 'a \<Rightarrow> 'a" where
  "for_each_pixel w h body s = fold (\<lambda>y. fold (\<lambda>x. body x y) [0..<w]) [0..<h] s"

text \<open>Four consecutive stores, one pixel.\<close>

definition store4 :: "u8 list \<Rightarrow> nat \<Rightarrow> u8 option \<times> u8 option \<times> u8 option \<times> u8 option \<Rightarrow> u8 list" where
  "store4 d idx q = (case q of (a, b, c, e) \<Rightarrow>
     wr (wr (wr (wr d idx a) (idx + 1) b) (idx + 2) c) (idx + 3) e)"

text \<open>Accessors used to state properties of well-formed rasters.\<close>

definition wf_image :: "ImageData \<Rightarrow> bool" where
  "wf_image img = (length (data img) = width img * height img * 4)"

definition px4 :: "u8 list \<Rightarrow> nat \<Rightarrow> u8 \<times> u8 \<times> u8 \<times> u8" where
  "px4 d idx = (d ! idx, d ! (idx + 1), d ! (idx + 2), d ! (idx + 3))"

definition pixel :: "ImageData \<Rightarrow> nat \<Rightarrow> nat \<Rightarrow> u8 \<times> u8 \<times> u8 \<times> u8" where
  "pixel img x y = px4 (data img) ((y * width img + x) * 4)"

definition byte4 :: "u8 option \<times> u8 option \<times> u8 option \<times> u8 option \<Rightarrow> nat \<Rightarrow> u8" where
  "byte4 q k = (case q of (a, b, c, e) \<Rightarrow> to_u8 ([a, b, c, e] ! k))"

definition alpha :: "ImageData \<Rightarrow> nat \<Rightarrow> nat \<Rightarrow> u8" where
  "alpha img x y = data img ! ((y * width img + x) * 4 + 3)"

definition opaque :: "ImageData \<Rightarrow> nat \<Rightarrow> nat \<Rightarrow> bool" where
  "opaque img x y = (0 < alpha img x y)"

section \<open>LayerSeparator: extractSingleColor\<close>

record ColorEntry =
  r :: "u8 option"
  g :: "u8 option"
  b :: "u8 option"
  count :: nat
  lightness :: "real option"

definition extract_body :: "ImageData \<Rightarrow> ColorEntry \<Rightarrow> nat \<Rightarrow> nat \<Rightarrow> u8 list \<Rightarrow> u8 list" where
  "extract_body sourceData color x y layer =
     (let idx = (y * width sourceData + x) * 4;
          r' = rd (data sourceData) idx;
          g' = rd (data sourceData) (idx + 1);
          b' = rd (data sourceData) (idx + 2);
          a' = rd (data sourceData) (idx + 3)
      in if gt0 a' \<and> r' = r color \<and> g' = g color \<and> b' = b color
         then wr (wr (wr (wr layer idx r') (idx + 1) g') (idx + 2) b') (idx + 3) (Some 255)
         else layer)"

definition extractSingleColor :: "ImageData \<Rightarrow> ColorEntry \<Rightarrow> ImageData" where
  "extractSingleColor sourceData color =
     (let w = width sourceData; h = height sourceData
      in \<lparr>width = w, height = h,
          data = for_each_pixel w h (extract_body sourceData color) (replicate (w * h * 4) 0)\<rparr>)"

section \<open>MorphologicalProcessor: applyDilationWithMask\<close>

text \<open>The neighbour offsets \<^verbatim>\<open>{dx, dy}\<close> in the order of the source: top, right, bottom, left.\<close>

definition neighbors :: "(int \<times> int) list" where
  "neighbors = [(0, -1), (1, 0), (0, 1), (-1, 0)]"

text \<open>
  The loop \<^verbatim>\<open>for (const { dx, dy } of neighbors)\<close> of the dilation: the first neighbour in
  bounds whose alpha in \<^verbatim>\<open>current\<close> is greater than 0 is copied into \<^verbatim>\<open>next\<close> at \<open>idx\<close>,
  and the loop is left (\<^verbatim>\<open>break\<close>).
\<close>

fun dilate_neighbors :: "ImageData \<Rightarrow> nat \<Rightarrow> nat \<Rightarrow> nat \<Rightarrow> (int \<times> int) list \<Rightarrow> u8 list \<Rightarrow> u8 list" where
  "dilate_neighbors current x y idx [] nxt = nxt"
| "dilate_neighbors current x y idx ((dx, dy) # rest) nxt =
     (let nx = int x + dx; ny = int y + dy
      in if 0 \<le> nx \<and> nx < int (width current) \<and> 0 \<le> ny \<and> ny < int (height current)
         then (let nIdx = (nat ny * width current + nat nx) * 4
               in if gt0 (rd (data current) (nIdx + 3))
                  then wr (wr (wr (wr nxt idx (rd (data current) nIdx))
                                  (idx + 1) (rd (data current) (nIdx + 1)))
                              (idx + 2) (rd (data current) (nIdx + 2)))
                          (idx + 3) (rd (data current) (nIdx + 3))
                  else dilate_neighbors current x y idx rest nxt)
         else dilate_neighbors current x y idx rest nxt)"

definition dilate_body :: "ImageData \<Rightarrow> ImageData option \<Rightarrow> nat \<Rightarrow> nat \<Rightarrow> u8 list \<Rightarrow> u8 list" where
  "dilate_body current msk x y nxt =
     (let idx = (y * width current + x) * 4
      in if gt0 (rd (data current) (idx + 3)) then nxt
         else if (case msk of None \<Rightarrow> False | Some m \<Rightarrow> is0 (rd (data m) (idx + 3))) then nxt
         else dilate_neighbors current x y idx neighbors nxt)"

text \<open>\<^verbatim>\<open>for (i = 0; i < current.data.length; i++) next.data[i] = current.data[i]\<close>\<close>

definition copy_data :: "u8 list \<Rightarrow> u8 list \<Rightarrow> u8 list" where
  "copy_data cur nxt = fold (\<lambda>i n. wr n i (rd cur i)) [0..<length cur] nxt"

text \<open>One iteration of the outer loop: from \<^verbatim>\<open>current\<close> to \<^verbatim>\<open>next\<close>.\<close>

definition dilate_pass :: "ImageData option \<Rightarrow> ImageData \<Rightarrow> ImageData" where
  "dilate_pass msk current =
     (let w = width current; h = height current;
          next0 = copy_data (data current) (data (createImageData w h))
      in \<lparr>width = w, height = h,
          data = for_each_pixel w h (dilate_body current msk) next0\<rparr>)"

fun dilate_loop :: "nat \<Rightarrow> ImageData option \<Rightarrow> ImageData \<Rightarrow> ImageData" where
  "dilate_loop 0 msk current = current"
| "dilate_loop (Suc n) msk current = dilate_loop n msk (dilate_pass msk current)"

definition applyDilationWithMask :: "ImageData \<Rightarrow> int \<Rightarrow> ImageData option \<Rightarrow> ImageData" where
  "applyDilationWithMask sourceData radiusPixels msk =
     (if radiusPixels \<le> 0 then sourceData
      else dilate_loop (nat radiusPixels) msk
             \<lparr>width = width sourceData, height = height sourceData, data = data sourceData\<rparr>)"

definition applyDilation :: "ImageData \<Rightarrow> int \<Rightarrow> ImageData" where
  "applyDilation sourceData radiusPixels = applyDilationWithMask sourceData radiusPixels None"

text \<open>Vocabulary of the properties of a dilation.\<close>

definition same_size :: "ImageData option \<Rightarrow> ImageData \<Rightarrow> bool" where
  "same_size msk img = (case msk of None \<Rightarrow> True
     | Some m \<Rightarrow> wf_image m \<and> width m = width img \<and> height m = height img)"

definition mask_permits :: "ImageData option \<Rightarrow> nat \<Rightarrow> nat \<Rightarrow> bool" where
  "mask_permits msk x y = (case msk of None \<Rightarrow> True | Some m \<Rightarrow> 0 < alpha m x y)"

definition first_opaque_neighbor :: "ImageData \<Rightarrow> nat \<Rightarrow> nat \<Rightarrow> (nat \<times> nat) option" where
  "first_opaque_neighbor img x y =
     (if 0 < y \<and> opaque img x (y - 1) then Some (x, y - 1)
      else if x + 1 < width img \<and> opaque img (x + 1) y then Some (x + 1, y)
      else if y + 1 < height img \<and> opaque img x (y + 1) then Some (x, y + 1)
      else if 0 < x \<and> opaque img (x - 1) y then Some (x - 1, y)
      else None)"

fun within_steps :: "ImageData \<Rightarrow> nat \<Rightarrow> nat \<Rightarrow> nat \<Rightarrow> bool" where
  "within_steps img 0 x y = (x < width img \<and> y < height img \<and> opaque img x y)"
| "within_steps img (Suc n) x y =
     (x < width img \<and> y < height img \<and>
      (within_steps img n x y
       \<or> (0 < y \<and> within_steps img n x (y - 1))
       \<or> within_steps img n (x + 1) y
       \<or> within_steps img n x (y + 1)
       \<or> (0 < x \<and> within_steps img n (x - 1) y)))"

text \<open>Four bytes read from a raster, as values stored by \<open>store4\<close>.\<close>

definition some4 :: "u8 \<times> u8 \<times> u8 \<times> u8 \<Rightarrow> u8 option \<times> u8 option \<times> u8 option \<times> u8 option" where
  "some4 p = (case p of (p0, p1, p2, p3) \<Rightarrow> (Some p0, Some p1, Some p2, Some p3))"

section \<open>MorphologicalProcessor: applyErosion\<close>

text \<open>
  The neighbour loop of the erosion computes \<^verbatim>\<open>keepPixel\<close>: it becomes false, and the loop
  is left, at the first neighbour out of bounds or with alpha \<^verbatim>\<open>=== 0\<close> in \<^verbatim>\<open>current\<close>.
\<close>

fun erode_neighbors :: "ImageData \<Rightarrow> nat \<Rightarrow> nat \<Rightarrow> (int \<times> int) list \<Rightarrow> bool" where
  "erode_neighbors current x y [] = True"
| "erode_neighbors current x y ((dx, dy) # rest) =
     (let nx = int x + dx; ny = int y + dy
      in if nx < 0 \<or> nx \<ge> int (width current) \<or> ny < 0 \<or> ny \<ge> int (height current)
         then False
         else (let nIdx = (nat ny * width current + nat nx) * 4
               in if is0 (rd (data current) (nIdx + 3)) then False
                  else erode_neighbors current x y rest))"

definition erode_body :: "ImageData \<Rightarrow> nat \<Rightarrow> nat \<Rightarrow> u8 list \<Rightarrow> u8 list" where
  "erode_body current x y nxt =
     (let idx = (y * width current + x) * 4
      in if is0 (rd (data current) (idx + 3)) then nxt
         else if erode_neighbors current x y neighbors
              then wr (wr (wr (wr nxt idx (rd (data current) idx))
                              (idx + 1) (rd (data current) (idx + 1)))
                          (idx + 2) (rd (data current) (idx + 2)))
                      (idx + 3) (rd (data current) (idx + 3))
              else nxt)"

definition erode_pass :: "ImageData \<Rightarrow> ImageData" where
  "erode_pass current =
     (let w = width current; h = height current
      in \<lparr>width = w, height = h,
          data = for_each_pixel w h (erode_body current) (data (createImageData w h))\<rparr>)"

fun erode_loop :: "nat \<Rightarrow> ImageData \<Rightarrow> ImageData" where
  "erode_loop 0 current = current"
| "erode_loop (Suc n) current = erode_loop n (erode_pass current)"

definition applyErosion :: "ImageData \<Rightarrow> int \<Rightarrow> ImageData" where
  "applyErosion sourceData radiusPixels =
     (if radiusPixels \<le> 0 then sourceData
      else erode_loop (nat radiusPixels)
             \<lparr>width = width sourceData, height = height sourceData, data = data sourceData\<rparr>)"

text \<open>Vocabulary of the properties of an erosion.\<close>

definition interior4 :: "ImageData \<Rightarrow> nat \<Rightarrow> nat \<Rightarrow> bool" where
  "interior4 img x y =
     (0 < y \<and> opaque img x (y - 1) \<and> x + 1 < width img \<and> opaque img (x + 1) y
      \<and> y + 1 < height img \<and> opaque img x (y + 1) \<and> 0 < x \<and> opaque img (x - 1) y)"

definition single_block3 :: "ImageData \<Rightarrow> nat \<Rightarrow> nat \<Rightarrow> bool" where
  "single_block3 img x0 y0 =
     (x0 + 2 < width img \<and> y0 + 2 < height img \<and>
      (\<forall>x \<in> {0..<width img}. \<forall>y \<in> {0..<height img}.
          opaque img x y = (x0 \<le> x \<and> x \<le> x0 + 2 \<and> y0 \<le> y \<and> y \<le> y0 + 2)))"

section \<open>TrapSizeParser: layer trap sizes\<close>

text \<open>
  JavaScript numbers are modelled by the real numbers: the arithmetic below is exact, and
  the rounding of IEEE doubles is outside the model. \<^verbatim>\<open>Math.round\<close> rounds to the nearest
  integer, a tie towards plus infinity.
\<close>

definition Math_round :: "real \<Rightarrow> int" where
  "Math_round v = \<lfloor>v + 1 / 2\<rfloor>"



section \<open>MaskCompositor: createDarkerColorMaskFromLayers\<close>

text \<open>
  An element of \<^verbatim>\<open>colorLayers\<close>. Its host layer handle is not modelled: a layer is
  identified by its position in the list.
\<close>

record ColorLayer =
  color :: ColorEntry
  lightness :: "real option"
  pixelData :: ImageData

definition mask_body :: "nat \<Rightarrow> ImageData \<Rightarrow> nat \<Rightarrow> nat \<Rightarrow> u8 list \<Rightarrow> u8 list" where
  "mask_body w darkerPixels x y maskData =
     (let idx = (y * w + x) * 4
      in if gt0 (rd (data darkerPixels) (idx + 3))
         then wr (wr (wr (wr maskData idx (Some 255)) (idx + 1) (Some 255)) (idx + 2) (Some 255))
                 (idx + 3) (Some 255)
         else maskData)"

text \<open>
  \<open>docW\<close> and \<open>docH\<close> are \<^verbatim>\<open>document.width\<close> and \<^verbatim>\<open>document.height\<close>. The outer loop runs
  over the indices \<^verbatim>\<open>currentIndex + 1 .. colorLayers.length - 1\<close>.
\<close>

definition createDarkerColorMaskFromLayers :: "nat \<Rightarrow> nat \<Rightarrow> nat \<Rightarrow> ColorLayer list \<Rightarrow> ImageData" where
  "createDarkerColorMaskFromLayers docW docH currentIndex colorLayers =
     (let maskData =
            fold (\<lambda>i md. for_each_pixel docW docH (mask_body docW (pixelData (colorLayers ! i))) md)
              [currentIndex + 1..<length colorLayers] (replicate (docW * docH * 4) 0)
      in \<lparr>width = docW, height = docH, data = maskData\<rparr>)"


text \<open>
  The separation loop of \<^verbatim>\<open>applyTrapping\<close> pushes one element per sorted colour, with the
  raster extracted from the flattened image.
\<close>

definition separate :: "ImageData \<Rightarrow> ColorEntry list \<Rightarrow> ColorLayer list" where
  "separate flattenedData sortedColors =
     map (\<lambda>c. \<lparr>color = c, lightness = ColorEntry.lightness c,
               pixelData = extractSingleColor flattenedData c\<rparr>) sortedColors"

text \<open>
  The trapping loop of \<^verbatim>\<open>applyTrapping\<close>, over the state it can touch: the array
  \<^verbatim>\<open>colorLayers\<close> and the pixels written to the host layers (by position).
\<close>

record TrapState =
  colorLayers :: "ColorLayer list"
  hostPixels :: "nat \<Rightarrow> ImageData option"



text \<open>Vocabulary of the properties of the mask.\<close>

definition layers_fit :: "nat \<Rightarrow> nat \<Rightarrow> ColorLayer list \<Rightarrow> bool" where
  "layers_fit docW docH cls =
     (\<forall>l \<in> set cls. wf_image (pixelData l) \<and> width (pixelData l) = docW \<and> height (pixelData l) = docH)"


section \<open>ColorAnalyzer: analyzeColors\<close>

text \<open>
  \<^verbatim>\<open>0.299 * r + 0.587 * g + 0.114 * b\<close>; with an \<^verbatim>\<open>undefined\<close> operand the result is \<^verbatim>\<open>NaN\<close>,
  modelled by \<open>None\<close>.
\<close>

definition calculateLightness :: "u8 option \<Rightarrow> u8 option \<Rightarrow> u8 option \<Rightarrow> real option" where
  "calculateLightness rv gv bv =
     (case (rv, gv, bv) of
        (Some r', Some g', Some b') \<Rightarrow>
          Some (299 / 1000 * real (unat r') + 587 / 1000 * real (unat g') + 114 / 1000 * real (unat b'))
      | _ \<Rightarrow> None)"

text \<open>
  \<^verbatim>\<open>colorMap\<close> is a \<^verbatim>\<open>Map\<close>, which keeps its keys in insertion order: an association list.
  The key \<^verbatim>\<open>`${r},${g},${b}`\<close> determines the three values and is modelled by the triple.
\<close>

type_synonym color_key = "u8 option \<times> u8 option \<times> u8 option"

definition analyze_body :: "ImageData \<Rightarrow> nat \<Rightarrow> nat \<Rightarrow> (color_key \<times> ColorEntry) list
    \<Rightarrow> (color_key \<times> ColorEntry) list" where
  "analyze_body imageData x y colorMap =
     (let idx = (y * width imageData + x) * 4;
          rv = rd (data imageData) idx;
          gv = rd (data imageData) (idx + 1);
          bv = rd (data imageData) (idx + 2);
          av = rd (data imageData) (idx + 3)
      in if is0 av then colorMap
         else (let key = (rv, gv, bv)
               in if key \<in> fst ` set colorMap
                  then map (\<lambda>(k, e). if k = key then (k, e\<lparr>count := count e + 1\<rparr>) else (k, e)) colorMap
                  else colorMap @ [(key, \<lparr>r = rv, g = gv, b = bv, count = 1,
                                          lightness = calculateLightness rv gv bv\<rparr>)]))"

record ColorAnalysis =
  colors :: "ColorEntry list"
  totalPixels :: nat
  uniqueColors :: nat

definition analyzeColors :: "ImageData \<Rightarrow> ColorAnalysis" where
  "analyzeColors imageData =
     (let colorMap = for_each_pixel (width imageData) (height imageData) (analyze_body imageData) [];
          colors = map snd colorMap
      in \<lparr>colors = colors,
          totalPixels = width imageData * height imageData,
          uniqueColors = length colors\<rparr>)"

section \<open>Pipeline: the significant colours\<close>

text \<open>
  The errors thrown by \<^verbatim>\<open>applyTrapping\<close> after the analysis, named after their messages:
  ``Document has n distinct colors ..., exceeds maximum of 10'' and ``No significant colors
  found in document''.
\<close>

datatype pipeline_error = TooManyColors nat | NoSignificantColors

definition minPixelThreshold :: "ColorAnalysis \<Rightarrow> int" where
  "minPixelThreshold colorAnalysis =
     max 100 (Math_round (real (totalPixels colorAnalysis) * (1 / 10000)))"

definition significantColors :: "ColorAnalysis \<Rightarrow> ColorEntry list" where
  "significantColors colorAnalysis =
     filter (\<lambda>c. int (count c) \<ge> minPixelThreshold colorAnalysis) (colors colorAnalysis)"

text \<open>Lines 211 to 227 of \<^verbatim>\<open>applyTrapping\<close>: the filter and the two checks that follow it.\<close>

definition selectSignificantColors :: "ColorAnalysis \<Rightarrow> pipeline_error + ColorEntry list" where
  "selectSignificantColors colorAnalysis =
     (let significant = significantColors colorAnalysis
      in if length significant > 10 then Inl (TooManyColors (length significant))
         else if length significant = 0 then Inl NoSignificantColors
         else Inr significant)"

text \<open>Vocabulary: the pixels that the analysis counts for an entry.\<close>

definition counted_pixels :: "ImageData \<Rightarrow> ColorEntry \<Rightarrow> (nat \<times> nat) set" where
  "counted_pixels img e =
     {(x, y). x < width img \<and> y < height img \<and> alpha img x y \<noteq> 0
        \<and> (case pixel img x y of (p0, p1, p2, p3) \<Rightarrow> r e = Some p0 \<and> g e = Some p1 \<and> b e = Some p2)}"

text \<open>Bookkeeping for the scan: key and visibility of the pixel at \<open>(y, x)\<close>, and the count kept for a key.\<close>

definition key_at :: "ImageData \<Rightarrow> nat \<times> nat \<Rightarrow> color_key" where
  "key_at img p = (case p of (y, x) \<Rightarrow>
     (rd (data img) ((y * width img + x) * 4), rd (data img) ((y * width img + x) * 4 + 1),
      rd (data img) ((y * width img + x) * 4 + 2)))"

definition visible_at :: "ImageData \<Rightarrow> nat \<times> nat \<Rightarrow> bool" where
  "visible_at img p = (case p of (y, x) \<Rightarrow> \<not> is0 (rd (data img) ((y * width img + x) * 4 + 3)))"

definition good_map :: "(color_key \<times> ColorEntry) list \<Rightarrow> bool" where
  "good_map cm = (distinct (map fst cm) \<and> (\<forall>(k, e) \<in> set cm. k = (r e, g e, b e) \<and> 0 < count e))"

definition cnt :: "(color_key \<times> ColorEntry) list \<Rightarrow> color_key \<Rightarrow> nat" where
  "cnt cm k = (case map_of cm k of Some e \<Rightarrow> count e | None \<Rightarrow> 0)"

section \<open>TrapSizeParser: parse\<close>


























section \<open>Example inputs\<close>

definition src21 :: ImageData where
  "src21 = \<lparr>width = 2, height = 1, data = [10, 20, 30, 128, 10, 20, 31, 255]\<rparr>"

definition col1 :: ColorEntry where
  "col1 = \<lparr>r = Some 10, g = Some 20, b = Some 30, count = 1, lightness = None\<rparr>"

definition src31 :: ImageData where
  "src31 = \<lparr>width = 3, height = 1, data = [9, 8, 7, 255, 0, 0, 0, 0, 0, 0, 0, 0]\<rparr>"

definition src31b :: ImageData where
  "src31b = \<lparr>width = 3, height = 1, data = [9, 8, 7, 255, 0, 0, 0, 0, 1, 2, 3, 255]\<rparr>"

definition mask31 :: ImageData where
  "mask31 = \<lparr>width = 3, height = 1, data = [0, 0, 0, 0, 255, 255, 255, 255, 0, 0, 0, 0]\<rparr>"

definition block55 :: ImageData where
  "block55 = \<lparr>width = 5, height = 5, data =
     [0,0,0,0, 0,0,0,0, 0,0,0,0, 0,0,0,0, 0,0,0,0,
      0,0,0,0, 1,2,3,255, 1,2,3,255, 1,2,3,255, 0,0,0,0,
      0,0,0,0, 1,2,3,255, 4,5,6,200, 1,2,3,255, 0,0,0,0,
      0,0,0,0, 1,2,3,255, 1,2,3,255, 1,2,3,255, 0,0,0,0,
      0,0,0,0, 0,0,0,0, 0,0,0,0, 0,0,0,0, 0,0,0,0]\<rparr>"





definition flat31t :: ImageData where
  "flat31t = \<lparr>width = 3, height = 1, data = [200, 0, 0, 255, 200, 0, 0, 0, 9, 9, 9, 0]\<rparr>"

definition red1 :: ColorEntry where
  "red1 = \<lparr>r = Some 200, g = Some 0, b = Some 0, count = 1, lightness = Some (598 / 10)\<rparr>"

definition entry_with :: "nat \<Rightarrow> ColorEntry" where
  "entry_with n = \<lparr>r = Some 1, g = Some 2, b = Some 3, count = n, lightness = Some 2\<rparr>"

definition analysis2 :: ColorAnalysis where
  "analysis2 = \<lparr>colors = [entry_with 99, entry_with 100], totalPixels = 1000 * 1000, uniqueColors = 2\<rparr>"

definition analysis11 :: ColorAnalysis where
  "analysis11 = \<lparr>colors = replicate 11 (entry_with 5000), totalPixels = 1000 * 1000, uniqueColors = 11\<rparr>"

definition analysis1 :: ColorAnalysis where
  "analysis1 = \<lparr>colors = [entry_with 99], totalPixels = 1000 * 1000, uniqueColors = 1\<rparr>"

section \<open>Pixel scans\<close>

lemma blk_div_mod:
  fixes p :: nat
  assumes "k < 4"
  shows "(p * 4 + k) div 4 = p" "(p * 4 + k) mod 4 = k"
  using assms by simp_all

lemma row_div_mod:
  fixes w :: nat
  assumes "x < w"
  shows "(y * w + x) div w = y" "(y * w + x) mod w = x"
  using assms by simp_all

lemma pix_index_inj:
  fixes w :: nat
  assumes "x < w" "x' < w" "k < 4" "k' < 4"
  shows "((y * w + x) * 4 + k = (y' * w + x') * 4 + k') = (y = y' \<and> x = x' \<and> k = k')"
proof
  assume e: "(y * w + x) * 4 + k = (y' * w + x') * 4 + k'"
  have p: "y * w + x = y' * w + x'"
    using blk_div_mod(1) [OF \<open>k < 4\<close>, of "y * w + x"] blk_div_mod(1) [OF \<open>k' < 4\<close>, of "y' * w + x'"] e
    by metis
  have k: "k = k'"
    using blk_div_mod(2) [OF \<open>k < 4\<close>, of "y * w + x"] blk_div_mod(2) [OF \<open>k' < 4\<close>, of "y' * w + x'"] e
    by metis
  have y: "y = y'"
    using row_div_mod(1) [OF \<open>x < w\<close>, of y] row_div_mod(1) [OF \<open>x' < w\<close>, of y'] p by metis
  have "x = x'"
    using row_div_mod(2) [OF \<open>x < w\<close>, of y] row_div_mod(2) [OF \<open>x' < w\<close>, of y'] p by metis
  with k y show "y = y' \<and> x = x' \<and> k = k'" by simp
qed simp

lemma pix_index_bound:
  fixes w :: nat
  assumes "x < w" "y < h" "k < 4"
  shows "(y * w + x) * 4 + k < w * h * 4"
proof -
  have "y * w + x < Suc y * w" using assms by simp
  also have "\<dots> \<le> h * w" using assms by (intro mult_le_mono1) simp
  finally have "y * w + x < w * h" by (simp add: mult.commute)
  then show ?thesis using assms by simp
qed

text \<open>Pixel indices are kept in the shape \<open>(y * w + x) * 4 + k\<close> of the source.\<close>

declare distrib_right_numeral [simp del]

lemma length_store4 [simp]: "length (store4 d idx q) = length d"
  by (cases q) (simp add: store4_def wr_def)

lemma nth_store4:
  assumes "idx + 3 < length d" "j < length d"
  shows "store4 d idx q ! j = (if idx \<le> j \<and> j < idx + 4 then byte4 q (j - idx) else d ! j)"
proof (cases q)
  case (fields a b c e)
  consider "j = idx" | "j = idx + 1" | "j = idx + 2" | "j = idx + 3" | "j < idx \<or> idx + 4 \<le> j"
    by linarith
  then show ?thesis
    using assms by cases (auto simp: fields store4_def wr_def byte4_def)
qed

lemma for_row_nth:
  assumes body: "\<And>x d. x < w \<Longrightarrow> body x d = (if c x then store4 d ((y * w + x) * 4) (v x) else d)"
    and len: "length d = w * h * 4" and "n \<le> w" "y < h" "x' < w" "y' < h" "k < 4"
  shows "length (fold body [0..<n] d) = length d \<and>
         fold body [0..<n] d ! ((y' * w + x') * 4 + k) =
           (if y' = y \<and> x' < n \<and> c x' then byte4 (v x') k else d ! ((y' * w + x') * 4 + k))"
  using \<open>n \<le> w\<close>
proof (induction n)
  case 0
  then show ?case by simp
next
  case (Suc n)
  let ?D = "fold body [0..<n] d"
  have IH: "length ?D = length d"
    "?D ! ((y' * w + x') * 4 + k) =
       (if y' = y \<and> x' < n \<and> c x' then byte4 (v x') k else d ! ((y' * w + x') * 4 + k))"
    using Suc by simp_all
  have nw: "n < w" using Suc.prems by simp
  have b1: "(y * w + n) * 4 + 3 < length ?D"
    using pix_index_bound [OF nw \<open>y < h\<close>, of 3] IH(1) len by simp
  have b2: "(y' * w + x') * 4 + k < length ?D"
    using pix_index_bound [OF \<open>x' < w\<close> \<open>y' < h\<close> \<open>k < 4\<close>] IH(1) len by simp
  have step: "fold body [0..<Suc n] d = body n ?D" by simp
  show ?case
  proof (cases "c n")
    case False
    then have "body n ?D = ?D" by (simp add: body [OF nw])
    then show ?thesis using IH False by (auto simp: step less_Suc_eq)
  next
    case True
    then have bd: "body n ?D = store4 ?D ((y * w + n) * 4) (v n)" by (simp add: body [OF nw])
    have inblk: "((y * w + n) * 4 \<le> (y' * w + x') * 4 + k \<and> (y' * w + x') * 4 + k < (y * w + n) * 4 + 4)
        = (y' = y \<and> x' = n)"
    proof
      assume a: "(y * w + n) * 4 \<le> (y' * w + x') * 4 + k \<and> (y' * w + x') * 4 + k < (y * w + n) * 4 + 4"
      then obtain k' where "k' < 4" "(y' * w + x') * 4 + k = (y * w + n) * 4 + k'"
        by (metis add.commute le_Suc_ex nat_add_left_cancel_less)
      then show "y' = y \<and> x' = n"
        using pix_index_inj [OF \<open>x' < w\<close> nw \<open>k < 4\<close> \<open>k' < 4\<close>, of y' y] by simp
    next
      assume "y' = y \<and> x' = n"
      then show "(y * w + n) * 4 \<le> (y' * w + x') * 4 + k \<and> (y' * w + x') * 4 + k < (y * w + n) * 4 + 4"
        using \<open>k < 4\<close> by simp
    qed
    have "store4 ?D ((y * w + n) * 4) (v n) ! ((y' * w + x') * 4 + k) =
        (if y' = y \<and> x' = n then byte4 (v n) ((y' * w + x') * 4 + k - (y * w + n) * 4)
         else ?D ! ((y' * w + x') * 4 + k))"
      unfolding nth_store4 [OF b1 b2] inblk ..
    moreover have "y' = y \<and> x' = n \<Longrightarrow> (y' * w + x') * 4 + k - (y * w + n) * 4 = k"
      by simp
    ultimately have "store4 ?D ((y * w + n) * 4) (v n) ! ((y' * w + x') * 4 + k) =
        (if y' = y \<and> x' = n then byte4 (v n) k else ?D ! ((y' * w + x') * 4 + k))"
      by presburger
    moreover have "length (store4 ?D ((y * w + n) * 4) (v n)) = length d"
      using IH(1) by simp
    ultimately show ?thesis
      unfolding step bd using IH(2) True
      by (metis less_Suc_eq less_irrefl)
  qed
qed

lemma for_each_pixel_rows:
  assumes body: "\<And>x y d. x < w \<Longrightarrow> y < h \<Longrightarrow>
      body x y d = (if c x y then store4 d ((y * w + x) * 4) (v x y) else d)"
    and len: "length d = w * h * 4" and "m \<le> h" "x' < w" "y' < h" "k < 4"
  shows "length (fold (\<lambda>y. fold (\<lambda>x. body x y) [0..<w]) [0..<m] d) = length d \<and>
         fold (\<lambda>y. fold (\<lambda>x. body x y) [0..<w]) [0..<m] d ! ((y' * w + x') * 4 + k) =
           (if y' < m \<and> c x' y' then byte4 (v x' y') k else d ! ((y' * w + x') * 4 + k))"
  using \<open>m \<le> h\<close>
proof (induction m)
  case 0
  then show ?case by simp
next
  case (Suc m)
  let ?D = "fold (\<lambda>y. fold (\<lambda>x. body x y) [0..<w]) [0..<m] d"
  have IH: "length ?D = length d"
    "?D ! ((y' * w + x') * 4 + k) =
       (if y' < m \<and> c x' y' then byte4 (v x' y') k else d ! ((y' * w + x') * 4 + k))"
    using Suc by simp_all
  have mh: "m < h" using Suc.prems by simp
  have lenD: "length ?D = w * h * 4" using IH(1) len by simp
  have row: "length (fold (\<lambda>x. body x m) [0..<w] ?D) = length ?D \<and>
         fold (\<lambda>x. body x m) [0..<w] ?D ! ((y' * w + x') * 4 + k) =
           (if y' = m \<and> x' < w \<and> c x' m then byte4 (v x' m) k else ?D ! ((y' * w + x') * 4 + k))"
    by (rule for_row_nth [where h = h, OF body [OF _ mh] lenD order_refl mh \<open>x' < w\<close> \<open>y' < h\<close> \<open>k < 4\<close>])
  show ?case
    using row IH \<open>x' < w\<close> by (auto simp: less_Suc_eq)
qed

lemma for_each_pixel_nth:
  assumes body: "\<And>x y d. x < w \<Longrightarrow> y < h \<Longrightarrow>
      body x y d = (if c x y then store4 d ((y * w + x) * 4) (v x y) else d)"
    and len: "length d = w * h * 4" and "x < w" "y < h" "k < 4"
  shows "for_each_pixel w h body d ! ((y * w + x) * 4 + k) =
           (if c x y then byte4 (v x y) k else d ! ((y * w + x) * 4 + k))"
  using for_each_pixel_rows [OF body len order_refl \<open>x < w\<close> \<open>y < h\<close> \<open>k < 4\<close>] \<open>y < h\<close>
  by (simp add: for_each_pixel_def)

lemma for_each_pixel_length:
  assumes body: "\<And>x y d. x < w \<Longrightarrow> y < h \<Longrightarrow>
      body x y d = (if c x y then store4 d ((y * w + x) * 4) (v x y) else d)"
  shows "length (for_each_pixel w h body d) = length d"
proof -
  have row: "length (fold (\<lambda>x. body x y) [0..<n] d) = length d" if "y < h" "n \<le> w" for y n d
    using that(2) by (induction n) (simp_all add: body [OF _ that(1)])
  have "length (fold (\<lambda>y. fold (\<lambda>x. body x y) [0..<w]) [0..<m] d) = length d" if "m \<le> h" for m
    using that by (induction m) (simp_all add: row)
  then show ?thesis by (simp add: for_each_pixel_def)
qed

lemma for_each_pixel_px4:
  assumes body: "\<And>x y d. x < w \<Longrightarrow> y < h \<Longrightarrow>
      body x y d = (if c x y then store4 d ((y * w + x) * 4) (v x y) else d)"
    and len: "length d = w * h * 4" and xy: "x < w" "y < h"
  shows "px4 (for_each_pixel w h body d) ((y * w + x) * 4) =
           (if c x y then (byte4 (v x y) 0, byte4 (v x y) 1, byte4 (v x y) 2, byte4 (v x y) 3)
            else px4 d ((y * w + x) * 4))"
proof -
  have n: "for_each_pixel w h body d ! ((y * w + x) * 4 + k) =
           (if c x y then byte4 (v x y) k else d ! ((y * w + x) * 4 + k))" if "k < 4" for k
    by (rule for_each_pixel_nth [OF body len xy that])
  show ?thesis
    using n [of 0] n [of 1] n [of 2] n [of 3] by (simp add: px4_def)
qed

lemma rd_in_range:
  assumes "wf_image img" "x < width img" "y < height img" "k < 4"
  shows "rd (data img) ((y * width img + x) * 4 + k) = Some (data img ! ((y * width img + x) * 4 + k))"
  using pix_index_bound [OF assms(2-4)] assms(1) by (simp add: rd_def wf_image_def)

lemma rd_px:
  assumes "wf_image img" "x < width img" "y < height img"
  shows "rd (data img) ((y * width img + x) * 4) = Some (fst (pixel img x y))"
    "rd (data img) ((y * width img + x) * 4 + 1) = Some (fst (snd (pixel img x y)))"
    "rd (data img) ((y * width img + x) * 4 + 2) = Some (fst (snd (snd (pixel img x y))))"
    "rd (data img) ((y * width img + x) * 4 + 3) = Some (alpha img x y)"
  using rd_in_range [OF assms, of 0] rd_in_range [OF assms, of 1]
    rd_in_range [OF assms, of 2] rd_in_range [OF assms, of 3]
  by (simp_all add: pixel_def px4_def alpha_def)

lemma alpha_pixel: "alpha img x y = snd (snd (snd (pixel img x y)))"
  by (simp add: alpha_def pixel_def px4_def)

lemma px4_zeros:
  assumes "x < w" "y < h"
  shows "px4 (replicate (w * h * 4) 0) ((y * w + x) * 4) = (0, 0, 0, 0)"
  using pix_index_bound [OF assms, of 0] pix_index_bound [OF assms, of 1]
    pix_index_bound [OF assms, of 2] pix_index_bound [OF assms, of 3]
  by (simp add: px4_def)

section \<open>extractSingleColor\<close>

lemma extract_body_shape:
  assumes "wf_image src" "x < width src" "y < height src"
  shows "extract_body src col x y d =
     (if (case pixel src x y of (pr, pg, pb, pa) \<Rightarrow>
            0 < pa \<and> r col = Some pr \<and> g col = Some pg \<and> b col = Some pb)
      then store4 d ((y * width src + x) * 4) (r col, g col, b col, Some 255)
      else d)"
proof -
  obtain pr pg pb pa where p: "pixel src x y = (pr, pg, pb, pa)"
    by (cases "pixel src x y") auto
  have a: "alpha src x y = pa" by (simp add: alpha_pixel p)
  show ?thesis
    unfolding extract_body_def Let_def rd_px [OF assms] p a store4_def
    by (auto simp: gt0_def)
qed

text \<open>
  Claim C7. For a well-formed source raster and any target colour, \<open>extractSingleColor\<close>
  returns a well-formed raster of the same width and height; the pixel at every position
  \<open>(x, y)\<close> of the result is the target colour with alpha 255 when the source pixel there has
  alpha greater than 0 and its red, green and blue bytes equal the target's, and is
  \<open>(0, 0, 0, 0)\<close> otherwise; so every alpha of the result is 0 or 255.
\<close>

theorem extractSingleColor_pixels:
  assumes "wf_image src" "x < width src" "y < height src"
  shows "width (extractSingleColor src col) = width src
       \<and> height (extractSingleColor src col) = height src
       \<and> wf_image (extractSingleColor src col)
       \<and> pixel (extractSingleColor src col) x y =
           (case pixel src x y of (pr, pg, pb, pa) \<Rightarrow>
              if 0 < pa \<and> r col = Some pr \<and> g col = Some pg \<and> b col = Some pb
              then (pr, pg, pb, 255) else (0, 0, 0, 0))
       \<and> (alpha (extractSingleColor src col) x y = 0
            \<or> alpha (extractSingleColor src col) x y = 255)"
proof -
  let ?w = "width src" and ?h = "height src"
  let ?out = "extractSingleColor src col"
  note shape = extract_body_shape [OF assms(1), where col = col]
  have dims: "width ?out = ?w" "height ?out = ?h"
    by (simp_all add: extractSingleColor_def Let_def)
  have dat: "data ?out = for_each_pixel ?w ?h (extract_body src col) (replicate (?w * ?h * 4) 0)"
    by (simp add: extractSingleColor_def Let_def)
  have wf: "wf_image ?out"
    unfolding wf_image_def dims dat
    by (simp add: for_each_pixel_length [OF shape])
  obtain pr pg pb pa where p: "pixel src x y = (pr, pg, pb, pa)"
    by (cases "pixel src x y") auto
  have "pixel ?out x y = px4 (data ?out) ((y * ?w + x) * 4)"
    by (simp add: pixel_def dims)
  also have "\<dots> = (if (case pixel src x y of (pr, pg, pb, pa) \<Rightarrow>
            0 < pa \<and> r col = Some pr \<and> g col = Some pg \<and> b col = Some pb)
       then (byte4 (r col, g col, b col, Some 255) 0, byte4 (r col, g col, b col, Some 255) 1,
             byte4 (r col, g col, b col, Some 255) 2, byte4 (r col, g col, b col, Some 255) 3)
       else px4 (replicate (?w * ?h * 4) 0) ((y * ?w + x) * 4))"
    unfolding dat by (rule for_each_pixel_px4 [OF shape _ assms(2,3)]) simp_all
  also have "\<dots> = (if 0 < pa \<and> r col = Some pr \<and> g col = Some pg \<and> b col = Some pb
       then (pr, pg, pb, 255) else (0, 0, 0, 0))"
    by (simp add: p px4_zeros [OF assms(2,3)] byte4_def to_u8_def)
  finally have px: "pixel ?out x y =
      (if 0 < pa \<and> r col = Some pr \<and> g col = Some pg \<and> b col = Some pb
       then (pr, pg, pb, 255) else (0, 0, 0, 0))" .
  then have "alpha ?out x y = 0 \<or> alpha ?out x y = 255"
    by (simp add: alpha_pixel)
  with dims wf px p show ?thesis by simp
qed

theorem extractSingleColor_pixels_witness:
  "wf_image src21 \<and> (0::nat) < width src21 \<and> (0::nat) < height src21
   \<and> pixel (extractSingleColor src21 col1) 0 0 = (10, 20, 30, 255)
   \<and> alpha (extractSingleColor src21 col1) 0 0 = 255"
proof -
  have h: "wf_image src21" "0 < width src21" "0 < height src21"
    by (simp_all add: wf_image_def src21_def)
  have p: "pixel src21 0 0 = (10, 20, 30, 128)"
    by (simp add: pixel_def px4_def src21_def)
  show ?thesis
    using h extractSingleColor_pixels [OF h, of col1]
    by (simp add: p col1_def alpha_pixel)
qed

section \<open>applyDilationWithMask\<close>

lemma copy_data_take:
  assumes "length cur = length nxt" "n \<le> length cur"
  shows "fold (\<lambda>i n. wr n i (rd cur i)) [0..<n] nxt = take n cur @ drop n nxt"
  using assms(2)
proof (induction n)
  case 0
  then show ?case by simp
next
  case (Suc n)
  then have n: "n < length cur" by simp
  have "fold (\<lambda>i n. wr n i (rd cur i)) [0..<Suc n] nxt = wr (take n cur @ drop n nxt) n (rd cur n)"
    using Suc by simp
  also have "\<dots> = take n cur @ (drop n nxt)[0 := cur ! n]"
    using n by (simp add: wr_def rd_def to_u8_def list_update_append)
  also have "\<dots> = take n cur @ cur ! n # drop (Suc n) nxt"
  proof -
    have "drop n nxt = nxt ! n # drop (Suc n) nxt"
      using n assms(1) by (simp add: Cons_nth_drop_Suc)
    then show ?thesis by simp
  qed
  also have "\<dots> = take (Suc n) cur @ drop (Suc n) nxt"
    using n by (simp add: take_Suc_conv_app_nth)
  finally show ?case .
qed

lemma copy_data_same_length:
  assumes "length cur = length nxt"
  shows "copy_data cur nxt = cur"
  using copy_data_take [OF assms order_refl] by (simp add: copy_data_def assms [symmetric])

lemma bytes_some4: "(byte4 (some4 p) 0, byte4 (some4 p) 1, byte4 (some4 p) 2, byte4 (some4 p) 3) = p"
  by (cases p) (simp add: some4_def byte4_def to_u8_def)

lemma rd_pixel4:
  assumes "wf_image img" "x < width img" "y < height img"
  shows "(rd (data img) ((y * width img + x) * 4), rd (data img) ((y * width img + x) * 4 + 1),
          rd (data img) ((y * width img + x) * 4 + 2), rd (data img) ((y * width img + x) * 4 + 3))
         = some4 (pixel img x y)"
  unfolding rd_px [OF assms] by (cases "pixel img x y") (simp add: some4_def alpha_pixel)

lemma gt0_alpha:
  assumes "wf_image img" "x < width img" "y < height img"
  shows "gt0 (rd (data img) ((y * width img + x) * 4 + 3)) = opaque img x y"
  unfolding rd_px [OF assms] by (simp add: gt0_def opaque_def)

lemma dilate_neighbors_in:
  assumes wf: "wf_image cur" and nb: "int x + dx = int nx" "int y + dy = int ny"
    and inb: "nx < width cur" "ny < height cur"
  shows "dilate_neighbors cur x y idx ((dx, dy) # rest) nxt =
     (if opaque cur nx ny then store4 nxt idx (some4 (pixel cur nx ny))
      else dilate_neighbors cur x y idx rest nxt)"
proof -
  have c: "0 \<le> int x + dx \<and> int x + dx < int (width cur) \<and> 0 \<le> int y + dy \<and> int y + dy < int (height cur)"
    using nb inb by simp
  have n: "nat (int x + dx) = nx" "nat (int y + dy) = ny" using nb by simp_all
  have st: "wr (wr (wr (wr nxt idx (rd (data cur) ((ny * width cur + nx) * 4)))
                 (idx + 1) (rd (data cur) ((ny * width cur + nx) * 4 + 1)))
             (idx + 2) (rd (data cur) ((ny * width cur + nx) * 4 + 2)))
         (idx + 3) (rd (data cur) ((ny * width cur + nx) * 4 + 3))
        = store4 nxt idx (some4 (pixel cur nx ny))"
    unfolding rd_pixel4 [OF wf inb, symmetric] by (simp add: store4_def)
  show ?thesis
    unfolding dilate_neighbors.simps Let_def n gt0_alpha [OF wf inb] st using c
    by (simp only: if_True simp_thms)
qed

lemma dilate_neighbors_out:
  assumes "\<not> (0 \<le> int x + dx \<and> int x + dx < int (width cur) \<and> 0 \<le> int y + dy \<and> int y + dy < int (height cur))"
  shows "dilate_neighbors cur x y idx ((dx, dy) # rest) nxt = dilate_neighbors cur x y idx rest nxt"
  unfolding dilate_neighbors.simps Let_def using assms by (simp only: if_False)

lemma dilate_neighbors_first:
  assumes wf: "wf_image cur" and xy: "x < width cur" "y < height cur"
  shows "dilate_neighbors cur x y idx neighbors nxt =
     (case first_opaque_neighbor cur x y of None \<Rightarrow> nxt
      | Some (nx, ny) \<Rightarrow> store4 nxt idx (some4 (pixel cur nx ny)))"
proof -
  have up: "dilate_neighbors cur x y idx ((0, -1) # rest) nxt =
      (if 0 < y \<and> opaque cur x (y - 1) then store4 nxt idx (some4 (pixel cur x (y - 1)))
       else dilate_neighbors cur x y idx rest nxt)" for rest
  proof (cases "0 < y")
    case True
    then show ?thesis
      using dilate_neighbors_in [OF wf, of x 0 x y "-1" "y - 1"] xy by simp
  next
    case False
    then show ?thesis by (subst dilate_neighbors_out) simp_all
  qed
  have right: "dilate_neighbors cur x y idx ((1, 0) # rest) nxt =
      (if x + 1 < width cur \<and> opaque cur (x + 1) y then store4 nxt idx (some4 (pixel cur (x + 1) y))
       else dilate_neighbors cur x y idx rest nxt)" for rest
  proof (cases "x + 1 < width cur")
    case True
    then show ?thesis
      using dilate_neighbors_in [OF wf, of x 1 "x + 1" y 0 y] xy by simp
  next
    case False
    then show ?thesis by (subst dilate_neighbors_out) simp_all
  qed
  have down: "dilate_neighbors cur x y idx ((0, 1) # rest) nxt =
      (if y + 1 < height cur \<and> opaque cur x (y + 1) then store4 nxt idx (some4 (pixel cur x (y + 1)))
       else dilate_neighbors cur x y idx rest nxt)" for rest
  proof (cases "y + 1 < height cur")
    case True
    then show ?thesis
      using dilate_neighbors_in [OF wf, of x 0 x y 1 "y + 1"] xy by simp
  next
    case False
    then show ?thesis by (subst dilate_neighbors_out) simp_all
  qed
  have left: "dilate_neighbors cur x y idx ((-1, 0) # rest) nxt =
      (if 0 < x \<and> opaque cur (x - 1) y then store4 nxt idx (some4 (pixel cur (x - 1) y))
       else dilate_neighbors cur x y idx rest nxt)" for rest
  proof (cases "0 < x")
    case True
    then show ?thesis
      using dilate_neighbors_in [OF wf, of x "-1" "x - 1" y 0 y] xy by simp
  next
    case False
    then show ?thesis by (subst dilate_neighbors_out) simp_all
  qed
  show ?thesis
    unfolding neighbors_def up right down left first_opaque_neighbor_def
    by simp
qed

lemma is0_mask:
  assumes "same_size (Some m) cur" "x < width cur" "y < height cur"
  shows "is0 (rd (data m) ((y * width cur + x) * 4 + 3)) = (\<not> mask_permits (Some m) x y)"
proof -
  have m: "wf_image m" "width m = width cur" "height m = height cur"
    using assms(1) by (simp_all add: same_size_def)
  have "rd (data m) ((y * width m + x) * 4 + 3) = Some (alpha m x y)"
    using rd_px(4) [OF m(1), of x y] assms(2,3) m by simp
  then show ?thesis
    by (simp add: is0_def mask_permits_def m word_neq_0_conv [symmetric])
qed

lemma dilate_body_shape:
  assumes wf: "wf_image cur" and ms: "same_size msk cur" and xy: "x < width cur" "y < height cur"
  shows "dilate_body cur msk x y nxt =
     (if \<not> opaque cur x y \<and> mask_permits msk x y \<and> first_opaque_neighbor cur x y \<noteq> None
      then store4 nxt ((y * width cur + x) * 4)
             (some4 (case the (first_opaque_neighbor cur x y) of (nx, ny) \<Rightarrow> pixel cur nx ny))
      else nxt)"
proof -
  have blocked: "(case msk of None \<Rightarrow> False | Some m \<Rightarrow> is0 (rd (data m) ((y * width cur + x) * 4 + 3)))
      = (\<not> mask_permits msk x y)"
  proof (cases msk)
    case None
    then show ?thesis by (simp add: mask_permits_def)
  next
    case (Some m)
    then show ?thesis using is0_mask [OF _ xy, of m] ms by simp
  qed
  show ?thesis
    unfolding dilate_body_def Let_def gt0_alpha [OF wf xy] blocked dilate_neighbors_first [OF wf xy]
    by (auto split: option.splits)
qed

lemma dilate_pass_dims [simp]:
  "width (dilate_pass msk cur) = width cur" "height (dilate_pass msk cur) = height cur"
  by (simp_all add: dilate_pass_def Let_def)

lemma dilate_pass_data:
  assumes "wf_image cur"
  shows "data (dilate_pass msk cur) =
     for_each_pixel (width cur) (height cur) (dilate_body cur msk) (data cur)"
proof -
  have "copy_data (data cur) (data (createImageData (width cur) (height cur))) = data cur"
    using assms by (intro copy_data_same_length) (simp add: createImageData_def wf_image_def)
  then show ?thesis by (simp add: dilate_pass_def Let_def)
qed

lemma dilate_pass_wf:
  assumes "wf_image cur" "same_size msk cur"
  shows "wf_image (dilate_pass msk cur)"
  unfolding wf_image_def dilate_pass_dims dilate_pass_data [OF assms(1)]
  using for_each_pixel_length [OF dilate_body_shape [OF assms]] assms(1)
  by (simp add: wf_image_def)

lemma dilate_pass_pixel:
  assumes wf: "wf_image cur" and ms: "same_size msk cur" and xy: "x < width cur" "y < height cur"
  shows "pixel (dilate_pass msk cur) x y =
     (if \<not> opaque cur x y \<and> mask_permits msk x y \<and> first_opaque_neighbor cur x y \<noteq> None
      then (case the (first_opaque_neighbor cur x y) of (nx, ny) \<Rightarrow> pixel cur nx ny)
      else pixel cur x y)"
proof -
  have len: "length (data cur) = width cur * height cur * 4"
    using wf by (simp add: wf_image_def)
  let ?q = "some4 (case the (first_opaque_neighbor cur x y) of (nx, ny) \<Rightarrow> pixel cur nx ny)"
  have "px4 (for_each_pixel (width cur) (height cur) (dilate_body cur msk) (data cur))
          ((y * width cur + x) * 4) =
        (if \<not> opaque cur x y \<and> mask_permits msk x y \<and> first_opaque_neighbor cur x y \<noteq> None
         then (byte4 ?q 0, byte4 ?q 1, byte4 ?q 2, byte4 ?q 3)
         else px4 (data cur) ((y * width cur + x) * 4))"
    by (rule for_each_pixel_px4 [OF dilate_body_shape [OF wf ms] len xy])
  then show ?thesis
    unfolding bytes_some4 pixel_def dilate_pass_dims dilate_pass_data [OF wf] .
qed

lemma image_eta: "\<lparr>width = width (img :: ImageData), height = height img, data = data img\<rparr> = img"
  by (cases img) simp

lemma dilate_loop_snoc: "dilate_loop (Suc n) msk cur = dilate_pass msk (dilate_loop n msk cur)"
  by (induction n arbitrary: cur) simp_all

lemma applyDilationWithMask_loop:
  "applyDilationWithMask src rad msk = dilate_loop (nat rad) msk src"
  by (simp add: applyDilationWithMask_def image_eta)

lemma same_size_pass: "same_size msk cur \<Longrightarrow> same_size msk (dilate_pass msk cur)"
  by (simp add: same_size_def split: option.splits)

lemma dilate_loop_inv:
  assumes "wf_image cur" "same_size msk cur"
  shows "wf_image (dilate_loop n msk cur) \<and> same_size msk (dilate_loop n msk cur)
       \<and> width (dilate_loop n msk cur) = width cur \<and> height (dilate_loop n msk cur) = height cur"
  using assms
proof (induction n arbitrary: cur)
  case 0
  then show ?case by simp
next
  case (Suc n)
  from Suc.IH [OF dilate_pass_wf [OF Suc.prems] same_size_pass [OF Suc.prems(2)]]
  show ?case by simp
qed

lemma first_opaque_neighbor_Some:
  assumes "first_opaque_neighbor img x y = Some (nx, ny)" "x < width img" "y < height img"
  shows "opaque img nx ny \<and> nx < width img \<and> ny < height img \<and>
     ((nx = x \<and> 0 < y \<and> ny = y - 1) \<or> (nx = x + 1 \<and> ny = y) \<or> (nx = x \<and> ny = y + 1)
       \<or> (0 < x \<and> nx = x - 1 \<and> ny = y))"
  using assms by (auto simp: first_opaque_neighbor_def split: if_splits)

lemma opaque_pixel: "opaque img x y = (0 < snd (snd (snd (pixel img x y))))"
  by (simp add: opaque_def alpha_pixel)

lemma dilate_pass_opaque:
  assumes wf: "wf_image cur" and ms: "same_size msk cur" and xy: "x < width cur" "y < height cur"
    and op: "opaque (dilate_pass msk cur) x y"
  shows "opaque cur x y \<or>
     (mask_permits msk x y \<and>
       ((0 < y \<and> opaque cur x (y - 1)) \<or> (x + 1 < width cur \<and> opaque cur (x + 1) y)
        \<or> (y + 1 < height cur \<and> opaque cur x (y + 1)) \<or> (0 < x \<and> opaque cur (x - 1) y)))"
proof (cases "\<not> opaque cur x y \<and> mask_permits msk x y \<and> first_opaque_neighbor cur x y \<noteq> None")
  case False
  have "pixel (dilate_pass msk cur) x y = pixel cur x y"
    by (rule trans [OF dilate_pass_pixel [OF wf ms xy] if_not_P [OF False]])
  then have "opaque cur x y" using op by (simp add: opaque_pixel)
  then show ?thesis by simp
next
  case True
  then obtain nx ny where f: "first_opaque_neighbor cur x y = Some (nx, ny)" by auto
  from first_opaque_neighbor_Some [OF f xy] True show ?thesis by auto
qed

lemma within_steps_pass:
  assumes wf: "wf_image cur" and ms: "same_size msk cur"
  shows "within_steps (dilate_pass msk cur) n x y \<Longrightarrow> within_steps cur (Suc n) x y"
proof (induction n arbitrary: x y)
  case 0
  then have xy: "x < width cur" "y < height cur" and op: "opaque (dilate_pass msk cur) x y"
    by simp_all
  from dilate_pass_opaque [OF wf ms xy op] xy show ?case by auto
next
  case (Suc n)
  then have xy: "x < width cur" "y < height cur" by simp_all
  from Suc.prems have
    "within_steps (dilate_pass msk cur) n x y
       \<or> (0 < y \<and> within_steps (dilate_pass msk cur) n x (y - 1))
       \<or> within_steps (dilate_pass msk cur) n (x + 1) y
       \<or> within_steps (dilate_pass msk cur) n x (y + 1)
       \<or> (0 < x \<and> within_steps (dilate_pass msk cur) n (x - 1) y)"
    by simp
  then have
    "within_steps cur (Suc n) x y
       \<or> (0 < y \<and> within_steps cur (Suc n) x (y - 1))
       \<or> within_steps cur (Suc n) (x + 1) y
       \<or> within_steps cur (Suc n) x (y + 1)
       \<or> (0 < x \<and> within_steps cur (Suc n) (x - 1) y)"
    using Suc.IH by blast
  then show ?case
    using xy by (subst within_steps.simps) blast
qed

lemma dilate_loop_within:
  assumes "wf_image cur" "same_size msk cur" "x < width cur" "y < height cur"
    "opaque (dilate_loop n msk cur) x y"
  shows "within_steps cur n x y"
  using assms
proof (induction n arbitrary: cur)
  case 0
  then show ?case by simp
next
  case (Suc n)
  have "within_steps (dilate_pass msk cur) n x y"
    using Suc.IH [OF dilate_pass_wf [OF Suc.prems(1,2)] same_size_pass [OF Suc.prems(2)]]
      Suc.prems(3-5) by simp
  then show ?case by (rule within_steps_pass [OF Suc.prems(1,2)])
qed

lemma dilate_loop_mask:
  assumes "wf_image cur" "same_size msk cur" "x < width cur" "y < height cur"
    "opaque (dilate_loop n msk cur) x y"
  shows "opaque cur x y \<or> mask_permits msk x y"
  using assms
proof (induction n arbitrary: cur)
  case 0
  then show ?case by simp
next
  case (Suc n)
  have "opaque (dilate_pass msk cur) x y \<or> mask_permits msk x y"
    using Suc.IH [OF dilate_pass_wf [OF Suc.prems(1,2)] same_size_pass [OF Suc.prems(2)]]
      Suc.prems(3-5) by simp
  then show ?case
    using dilate_pass_opaque [OF Suc.prems(1-4)] by blast
qed

lemma within_steps_distance:
  "within_steps img n x y \<Longrightarrow>
     \<exists>qx qy. qx < width img \<and> qy < height img \<and> opaque img qx qy
        \<and> \<bar>int x - int qx\<bar> + \<bar>int y - int qy\<bar> \<le> int n"
proof (induction n arbitrary: x y)
  case 0
  then show ?case by auto
next
  case (Suc n)
  from Suc.prems consider
      "within_steps img n x y" | "0 < y" "within_steps img n x (y - 1)"
    | "within_steps img n (x + 1) y" | "within_steps img n x (y + 1)"
    | "0 < x" "within_steps img n (x - 1) y"
    by auto
  then obtain x' y' where ws: "within_steps img n x' y'"
    and d: "\<bar>int x - int x'\<bar> + \<bar>int y - int y'\<bar> \<le> 1"
  proof cases
    case 1 then show ?thesis using that [of x y] by simp
  next
    case 2 then show ?thesis using that [of x "y - 1"] by simp
  next
    case 3 then show ?thesis using that [of "x + 1" y] by simp
  next
    case 4 then show ?thesis using that [of x "y + 1"] by simp
  next
    case 5 then show ?thesis using that [of "x - 1" y] by simp
  qed
  from Suc.IH [OF ws] obtain qx qy where q: "qx < width img" "qy < height img" "opaque img qx qy"
    "\<bar>int x' - int qx\<bar> + \<bar>int y' - int qy\<bar> \<le> int n" by blast
  have "\<bar>int x - int qx\<bar> + \<bar>int y - int qy\<bar> \<le> int (Suc n)"
    using d q(4) by linarith
  with q(1-3) show ?case by blast
qed

lemma first_opaque_neighbor_pixel:
  "(if first_opaque_neighbor cur x y \<noteq> None
    then (case the (first_opaque_neighbor cur x y) of (nx, ny) \<Rightarrow> pixel cur nx ny)
    else pixel cur x y) =
   (if 0 < y \<and> opaque cur x (y - 1) then pixel cur x (y - 1)
    else if x + 1 < width cur \<and> opaque cur (x + 1) y then pixel cur (x + 1) y
    else if y + 1 < height cur \<and> opaque cur x (y + 1) then pixel cur x (y + 1)
    else if 0 < x \<and> opaque cur (x - 1) y then pixel cur (x - 1) y
    else pixel cur x y)"
proof -
  have g: "(if f \<noteq> None then (case the f of (nx, ny) \<Rightarrow> P nx ny) else d) =
     (case f of None \<Rightarrow> d | Some (nx, ny) \<Rightarrow> P nx ny)" for f :: "(nat \<times> nat) option" and P d
    by (cases f) auto
  show ?thesis
    unfolding g first_opaque_neighbor_def
    by (simp only: if_distrib [of "case_option _ _"] option.case prod.case cong: if_cong)
qed

text \<open>
  Claim C3. One pass of the dilation maps a well-formed snapshot \<open>cur\<close> (with a mask that
  is absent or of the same size) to a well-formed raster of the same size, computed from
  \<open>cur\<close> alone: a pixel opaque in \<open>cur\<close> keeps its four bytes; a transparent pixel that
  the mask permits takes the four bytes of the first neighbour opaque in \<open>cur\<close>, the
  neighbours in bounds being tried in the order up, right, down, left, and keeps its own
  bytes when none is; a transparent pixel with no opaque neighbour in bounds stays
  transparent. The passes of \<open>applyDilationWithMask\<close> are these: a radius of \<open>n + 1\<close> gives
  one pass over the result for radius \<open>n\<close>.
\<close>

theorem dilate_pass_semantics:
  assumes "wf_image cur" "same_size msk cur" "x < width cur" "y < height cur"
  shows "wf_image (dilate_pass msk cur)
       \<and> width (dilate_pass msk cur) = width cur \<and> height (dilate_pass msk cur) = height cur
       \<and> (opaque cur x y \<longrightarrow> pixel (dilate_pass msk cur) x y = pixel cur x y)
       \<and> (\<not> opaque cur x y \<and> mask_permits msk x y \<longrightarrow>
            pixel (dilate_pass msk cur) x y =
              (if 0 < y \<and> opaque cur x (y - 1) then pixel cur x (y - 1)
               else if x + 1 < width cur \<and> opaque cur (x + 1) y then pixel cur (x + 1) y
               else if y + 1 < height cur \<and> opaque cur x (y + 1) then pixel cur x (y + 1)
               else if 0 < x \<and> opaque cur (x - 1) y then pixel cur (x - 1) y
               else pixel cur x y))
       \<and> (\<not> opaque cur x y
            \<and> \<not> (0 < y \<and> opaque cur x (y - 1)) \<and> \<not> (x + 1 < width cur \<and> opaque cur (x + 1) y)
            \<and> \<not> (y + 1 < height cur \<and> opaque cur x (y + 1)) \<and> \<not> (0 < x \<and> opaque cur (x - 1) y)
            \<longrightarrow> \<not> opaque (dilate_pass msk cur) x y)
       \<and> applyDilationWithMask cur (int n + 1) msk
            = dilate_pass msk (applyDilationWithMask cur (int n) msk)"
proof -
  note px = dilate_pass_pixel [OF assms]
  have a: "opaque cur x y \<longrightarrow> pixel (dilate_pass msk cur) x y = pixel cur x y"
    using px by simp
  have b: "\<not> opaque cur x y \<and> mask_permits msk x y \<longrightarrow>
            pixel (dilate_pass msk cur) x y =
              (if 0 < y \<and> opaque cur x (y - 1) then pixel cur x (y - 1)
               else if x + 1 < width cur \<and> opaque cur (x + 1) y then pixel cur (x + 1) y
               else if y + 1 < height cur \<and> opaque cur x (y + 1) then pixel cur x (y + 1)
               else if 0 < x \<and> opaque cur (x - 1) y then pixel cur (x - 1) y
               else pixel cur x y)"
  proof
    assume h: "\<not> opaque cur x y \<and> mask_permits msk x y"
    have "pixel (dilate_pass msk cur) x y =
        (if first_opaque_neighbor cur x y \<noteq> None
         then (case the (first_opaque_neighbor cur x y) of (nx, ny) \<Rightarrow> pixel cur nx ny)
         else pixel cur x y)"
      unfolding px using h by presburger
    then show "pixel (dilate_pass msk cur) x y =
              (if 0 < y \<and> opaque cur x (y - 1) then pixel cur x (y - 1)
               else if x + 1 < width cur \<and> opaque cur (x + 1) y then pixel cur (x + 1) y
               else if y + 1 < height cur \<and> opaque cur x (y + 1) then pixel cur x (y + 1)
               else if 0 < x \<and> opaque cur (x - 1) y then pixel cur (x - 1) y
               else pixel cur x y)"
      unfolding first_opaque_neighbor_pixel .
  qed
  have c: "\<not> opaque cur x y
            \<and> \<not> (0 < y \<and> opaque cur x (y - 1)) \<and> \<not> (x + 1 < width cur \<and> opaque cur (x + 1) y)
            \<and> \<not> (y + 1 < height cur \<and> opaque cur x (y + 1)) \<and> \<not> (0 < x \<and> opaque cur (x - 1) y)
            \<longrightarrow> \<not> opaque (dilate_pass msk cur) x y"
    using dilate_pass_opaque [OF assms] by blast
  have d: "applyDilationWithMask cur (int n + 1) msk
            = dilate_pass msk (applyDilationWithMask cur (int n) msk)"
    using dilate_loop_snoc [of n msk cur]
    by (simp add: applyDilationWithMask_loop nat_add_distrib)
  show ?thesis
    using dilate_pass_wf [OF assms(1,2)] a b c d by simp
qed

theorem dilate_pass_semantics_witness:
  "wf_image src31b \<and> same_size None src31b \<and> (1::nat) < width src31b \<and> (0::nat) < height src31b
   \<and> \<not> opaque src31b 1 0 \<and> mask_permits None 1 0
   \<and> opaque src31b 2 0 \<and> opaque src31b 0 0
   \<and> pixel (dilate_pass None src31b) 1 0 = (1, 2, 3, 255)"
proof -
  have h: "wf_image src31b" "same_size None src31b" "1 < width src31b" "0 < height src31b"
    by (simp_all add: wf_image_def same_size_def src31b_def)
  have o: "\<not> opaque src31b 1 0" "mask_permits None 1 0" "opaque src31b 2 0" "opaque src31b 0 0"
    by (simp_all add: opaque_def alpha_def mask_permits_def src31b_def)
  have p: "pixel src31b (1 + 1) 0 = (1, 2, 3, 255)"
    by (simp add: pixel_def px4_def src31b_def)
  have n: "1 + 1 < width src31b \<and> opaque src31b (1 + 1) 0"
    by (simp add: opaque_def alpha_def src31b_def)
  have "pixel (dilate_pass None src31b) 1 0 = (1, 2, 3, 255)"
    using dilate_pass_semantics [OF h, of 0] o(1,2) n p by (simp del: One_nat_def)
  then show ?thesis
    using h o by simp
qed

text \<open>
  Claim C1. For a well-formed raster, a mask that is absent or of the same size, and any
  radius, a pixel opaque in the result of \<open>applyDilationWithMask\<close> is reachable within
  \<open>radius\<close> 4-connected steps from a pixel opaque in the input (so some pixel opaque in the
  input lies at most \<open>radius\<close> rows plus columns away), and it was opaque in the input or
  the mask is absent or has alpha greater than 0 there: a pixel transparent in the input
  where the mask is transparent is transparent in the result.
\<close>

theorem applyDilationWithMask_reach:
  assumes "wf_image src" "same_size msk src" "x < width src" "y < height src"
    "opaque (applyDilationWithMask src rad msk) x y"
  shows "within_steps src (nat rad) x y
       \<and> (\<exists>qx qy. qx < width src \<and> qy < height src \<and> opaque src qx qy
              \<and> \<bar>int x - int qx\<bar> + \<bar>int y - int qy\<bar> \<le> int (nat rad))
       \<and> (opaque src x y \<or> mask_permits msk x y)"
proof -
  have op: "opaque (dilate_loop (nat rad) msk src) x y"
    using assms(5) by (simp add: applyDilationWithMask_loop)
  have ws: "within_steps src (nat rad) x y"
    by (rule dilate_loop_within [OF assms(1-4) op])
  show ?thesis
    using ws within_steps_distance [OF ws] dilate_loop_mask [OF assms(1-4) op] by simp
qed

theorem applyDilationWithMask_reach_witness:
  "wf_image src31 \<and> same_size (Some mask31) src31 \<and> (1::nat) < width src31 \<and> (0::nat) < height src31
   \<and> opaque (applyDilationWithMask src31 2 (Some mask31)) 1 0
   \<and> within_steps src31 (nat 2) 1 0
   \<and> (opaque src31 1 0 \<or> mask_permits (Some mask31) 1 0)"
proof -
  have h: "wf_image src31" "same_size (Some mask31) src31" "1 < width src31" "0 < height src31"
    by (simp_all add: wf_image_def same_size_def src31_def mask31_def)
  have o: "opaque (applyDilationWithMask src31 2 (Some mask31)) 1 0"
    by code_simp
  show ?thesis
    using h o applyDilationWithMask_reach [OF h o] by simp
qed

section \<open>applyErosion\<close>

lemma is0_alpha:
  assumes "wf_image img" "x < width img" "y < height img"
  shows "is0 (rd (data img) ((y * width img + x) * 4 + 3)) = (\<not> opaque img x y)"
  unfolding rd_px [OF assms] by (simp add: is0_def opaque_def word_neq_0_conv [symmetric])

lemma erode_neighbors_in:
  assumes wf: "wf_image cur" and nb: "int x + dx = int nx" "int y + dy = int ny"
    and inb: "nx < width cur" "ny < height cur"
  shows "erode_neighbors cur x y ((dx, dy) # rest) = (opaque cur nx ny \<and> erode_neighbors cur x y rest)"
proof -
  have c: "\<not> (int x + dx < 0 \<or> int x + dx \<ge> int (width cur) \<or> int y + dy < 0 \<or> int y + dy \<ge> int (height cur))"
    using nb inb by simp
  have n: "nat (int x + dx) = nx" "nat (int y + dy) = ny" using nb by simp_all
  show ?thesis
    unfolding erode_neighbors.simps Let_def n is0_alpha [OF wf inb] using c
    by (simp only: if_False) simp
qed

lemma erode_neighbors_out:
  assumes "int x + dx < 0 \<or> int x + dx \<ge> int (width cur) \<or> int y + dy < 0 \<or> int y + dy \<ge> int (height cur)"
  shows "erode_neighbors cur x y ((dx, dy) # rest) = False"
  unfolding erode_neighbors.simps Let_def using assms by (simp only: if_True)

lemma erode_neighbors_interior:
  assumes wf: "wf_image cur" and xy: "x < width cur" "y < height cur"
  shows "erode_neighbors cur x y neighbors = interior4 cur x y"
proof -
  have up: "erode_neighbors cur x y ((0, -1) # rest) =
      (0 < y \<and> opaque cur x (y - 1) \<and> erode_neighbors cur x y rest)" for rest
  proof (cases "0 < y")
    case True
    then show ?thesis
      using erode_neighbors_in [OF wf, of x 0 x y "-1" "y - 1"] xy by simp
  next
    case False
    then show ?thesis by (subst erode_neighbors_out) simp_all
  qed
  have right: "erode_neighbors cur x y ((1, 0) # rest) =
      (x + 1 < width cur \<and> opaque cur (x + 1) y \<and> erode_neighbors cur x y rest)" for rest
  proof (cases "x + 1 < width cur")
    case True
    then show ?thesis
      using erode_neighbors_in [OF wf, of x 1 "x + 1" y 0 y] xy by simp
  next
    case False
    then show ?thesis by (subst erode_neighbors_out) simp_all
  qed
  have down: "erode_neighbors cur x y ((0, 1) # rest) =
      (y + 1 < height cur \<and> opaque cur x (y + 1) \<and> erode_neighbors cur x y rest)" for rest
  proof (cases "y + 1 < height cur")
    case True
    then show ?thesis
      using erode_neighbors_in [OF wf, of x 0 x y 1 "y + 1"] xy by simp
  next
    case False
    then show ?thesis by (subst erode_neighbors_out) simp_all
  qed
  have left: "erode_neighbors cur x y ((-1, 0) # rest) =
      (0 < x \<and> opaque cur (x - 1) y \<and> erode_neighbors cur x y rest)" for rest
  proof (cases "0 < x")
    case True
    then show ?thesis
      using erode_neighbors_in [OF wf, of x "-1" "x - 1" y 0 y] xy by simp
  next
    case False
    then show ?thesis by (subst erode_neighbors_out) simp_all
  qed
  show ?thesis
    unfolding neighbors_def up right down left interior4_def by simp
qed

lemma erode_body_shape:
  assumes wf: "wf_image cur" and xy: "x < width cur" "y < height cur"
  shows "erode_body cur x y nxt =
     (if opaque cur x y \<and> interior4 cur x y
      then store4 nxt ((y * width cur + x) * 4) (some4 (pixel cur x y))
      else nxt)"
proof -
  have st: "wr (wr (wr (wr nxt ((y * width cur + x) * 4) (rd (data cur) ((y * width cur + x) * 4)))
                 ((y * width cur + x) * 4 + 1) (rd (data cur) ((y * width cur + x) * 4 + 1)))
             ((y * width cur + x) * 4 + 2) (rd (data cur) ((y * width cur + x) * 4 + 2)))
         ((y * width cur + x) * 4 + 3) (rd (data cur) ((y * width cur + x) * 4 + 3))
        = store4 nxt ((y * width cur + x) * 4) (some4 (pixel cur x y))"
    unfolding rd_pixel4 [OF wf xy, symmetric] by (simp add: store4_def)
  show ?thesis
    unfolding erode_body_def Let_def st is0_alpha [OF wf xy] erode_neighbors_interior [OF wf xy]
    by simp
qed

lemma erode_pass_dims [simp]:
  "width (erode_pass cur) = width cur" "height (erode_pass cur) = height cur"
  by (simp_all add: erode_pass_def Let_def)

lemma erode_pass_data:
  "data (erode_pass cur) =
     for_each_pixel (width cur) (height cur) (erode_body cur) (replicate (width cur * height cur * 4) 0)"
  by (simp add: erode_pass_def Let_def createImageData_def)

lemma erode_pass_wf:
  assumes "wf_image cur"
  shows "wf_image (erode_pass cur)"
  unfolding wf_image_def erode_pass_dims erode_pass_data
  using for_each_pixel_length [OF erode_body_shape [OF assms]]
  by simp

lemma erode_pass_pixel:
  assumes wf: "wf_image cur" and xy: "x < width cur" "y < height cur"
  shows "pixel (erode_pass cur) x y =
     (if opaque cur x y \<and> interior4 cur x y then pixel cur x y else (0, 0, 0, 0))"
proof -
  let ?q = "some4 (pixel cur x y)"
  have "px4 (for_each_pixel (width cur) (height cur) (erode_body cur)
              (replicate (width cur * height cur * 4) 0))
          ((y * width cur + x) * 4) =
        (if opaque cur x y \<and> interior4 cur x y
         then (byte4 ?q 0, byte4 ?q 1, byte4 ?q 2, byte4 ?q 3)
         else px4 (replicate (width cur * height cur * 4) 0) ((y * width cur + x) * 4))"
    by (rule for_each_pixel_px4 [OF erode_body_shape [OF wf] _ xy]) simp_all
  then show ?thesis
    unfolding bytes_some4 px4_zeros [OF xy] pixel_def erode_pass_dims erode_pass_data .
qed

lemma erode_loop_snoc: "erode_loop (Suc n) cur = erode_pass (erode_loop n cur)"
  by (induction n arbitrary: cur) simp_all

lemma applyErosion_loop: "applyErosion src rad = erode_loop (nat rad) src"
  by (simp add: applyErosion_def image_eta)

lemma erode_pass_opaque:
  assumes "wf_image cur" "x < width cur" "y < height cur"
  shows "opaque (erode_pass cur) x y = (opaque cur x y \<and> interior4 cur x y)"
  using erode_pass_pixel [OF assms] by (auto simp: opaque_pixel)

lemma single_block3_center:
  assumes wf: "wf_image cur" and xy: "x < width cur" "y < height cur"
    and blk: "single_block3 cur x0 y0"
  shows "(opaque cur x y \<and> interior4 cur x y) = (x = x0 + 1 \<and> y = y0 + 1)"
proof -
  have inb: "x0 + 2 < width cur" "y0 + 2 < height cur"
    using blk by (simp_all add: single_block3_def)
  have op: "opaque cur x' y' = (x0 \<le> x' \<and> x' \<le> x0 + 2 \<and> y0 \<le> y' \<and> y' \<le> y0 + 2)"
    if "x' < width cur" "y' < height cur" for x' y'
    using blk that by (simp add: single_block3_def)
  show ?thesis
  proof
    assume a: "opaque cur x y \<and> interior4 cur x y"
    then have c: "x0 \<le> x" "x \<le> x0 + 2" "y0 \<le> y" "y \<le> y0 + 2"
      using op [OF xy] by simp_all
    from a have i: "0 < y" "opaque cur x (y - 1)" "x + 1 < width cur" "opaque cur (x + 1) y"
      "y + 1 < height cur" "opaque cur x (y + 1)" "0 < x" "opaque cur (x - 1) y"
      by (simp_all add: interior4_def)
    have "y0 \<le> y - 1" using op [of x "y - 1"] i(2) xy by simp
    moreover have "x + 1 \<le> x0 + 2" using op [of "x + 1" y] i(3,4) xy by simp
    moreover have "y + 1 \<le> y0 + 2" using op [of x "y + 1"] i(5,6) xy by simp
    moreover have "x0 \<le> x - 1" using op [of "x - 1" y] i(8) xy by simp
    ultimately show "x = x0 + 1 \<and> y = y0 + 1" using i(1,7) by linarith
  next
    assume e: "x = x0 + 1 \<and> y = y0 + 1"
    have "opaque cur (x0 + 1) (y0 + 1)" "opaque cur (x0 + 1) y0" "opaque cur (x0 + 2) (y0 + 1)"
      "opaque cur (x0 + 1) (y0 + 2)" "opaque cur x0 (y0 + 1)"
      using inb by (simp_all add: op)
    then show "opaque cur x y \<and> interior4 cur x y"
      using e inb by (simp add: interior4_def add.commute numeral_2_eq_2)
  qed
qed

text \<open>
  Claim C8. One pass of the erosion maps a well-formed snapshot \<open>cur\<close> to a well-formed
  raster of the same size in which a pixel is opaque exactly when it is opaque in \<open>cur\<close>
  and its four axis-aligned neighbours are all in bounds and opaque in \<open>cur\<close>; a pixel
  that stays opaque keeps its four bytes, any other pixel is \<open>(0, 0, 0, 0)\<close>; so every
  pixel on the edge of the image is transparent after a pass. The passes of
  \<open>applyErosion\<close> are these (radius \<open>n + 1\<close> is one pass over the result for radius
  \<open>n\<close>), and on a raster whose opaque pixels are exactly one 3 by 3 block, radius 1
  leaves exactly the centre of the block opaque.
\<close>

theorem erode_pass_semantics:
  assumes "wf_image cur" "x < width cur" "y < height cur"
  shows "wf_image (erode_pass cur)
       \<and> width (erode_pass cur) = width cur \<and> height (erode_pass cur) = height cur
       \<and> opaque (erode_pass cur) x y =
            (opaque cur x y
             \<and> 0 < y \<and> opaque cur x (y - 1) \<and> x + 1 < width cur \<and> opaque cur (x + 1) y
             \<and> y + 1 < height cur \<and> opaque cur x (y + 1) \<and> 0 < x \<and> opaque cur (x - 1) y)
       \<and> pixel (erode_pass cur) x y =
            (if opaque (erode_pass cur) x y then pixel cur x y else (0, 0, 0, 0))
       \<and> (x = 0 \<or> y = 0 \<or> x + 1 = width cur \<or> y + 1 = height cur
            \<longrightarrow> \<not> opaque (erode_pass cur) x y)
       \<and> applyErosion cur (int n + 1) = erode_pass (applyErosion cur (int n))
       \<and> (single_block3 cur x0 y0 \<longrightarrow>
            opaque (applyErosion cur 1) x y = (x = x0 + 1 \<and> y = y0 + 1))"
proof -
  note op = erode_pass_opaque [OF assms]
  have a: "opaque (erode_pass cur) x y =
            (opaque cur x y
             \<and> 0 < y \<and> opaque cur x (y - 1) \<and> x + 1 < width cur \<and> opaque cur (x + 1) y
             \<and> y + 1 < height cur \<and> opaque cur x (y + 1) \<and> 0 < x \<and> opaque cur (x - 1) y)"
    unfolding op interior4_def ..
  have b: "pixel (erode_pass cur) x y =
            (if opaque (erode_pass cur) x y then pixel cur x y else (0, 0, 0, 0))"
    unfolding op by (rule erode_pass_pixel [OF assms])
  have c: "x = 0 \<or> y = 0 \<or> x + 1 = width cur \<or> y + 1 = height cur
            \<longrightarrow> \<not> opaque (erode_pass cur) x y"
    unfolding a by auto
  have d: "applyErosion cur (int n + 1) = erode_pass (applyErosion cur (int n))"
    using erode_loop_snoc [of n cur] by (simp add: applyErosion_loop nat_add_distrib)
  have one: "applyErosion cur 1 = erode_pass cur"
    by (simp add: applyErosion_loop)
  have e: "single_block3 cur x0 y0 \<longrightarrow>
            opaque (applyErosion cur 1) x y = (x = x0 + 1 \<and> y = y0 + 1)"
    unfolding one op using single_block3_center [OF assms] by blast
  show ?thesis
    using erode_pass_wf [OF assms(1)] a b c d e by simp
qed

theorem erode_pass_semantics_witness:
  "wf_image block55 \<and> (2::nat) < width block55 \<and> (2::nat) < height block55
   \<and> single_block3 block55 1 1
   \<and> opaque (applyErosion block55 1) 2 2
   \<and> pixel (erode_pass block55) 2 2 = (4, 5, 6, 200)"
proof -
  have h: "wf_image block55" "2 < width block55" "2 < height block55"
    by (simp_all add: wf_image_def block55_def)
  have s: "single_block3 block55 1 1"
    by code_simp
  have p: "pixel block55 2 2 = (4, 5, 6, 200)"
    by code_simp
  note t = erode_pass_semantics [OF h, of 0 1 1]
  have e0: "applyErosion block55 0 = block55"
    by (simp add: applyErosion_def)
  have "opaque (applyErosion block55 1) 2 2 = ((2::nat) = 1 + 1 \<and> (2::nat) = 1 + 1)"
    using t s by blast
  then have o: "opaque (applyErosion block55 1) 2 2"
    by simp
  have "applyErosion block55 (int 0 + 1) = erode_pass (applyErosion block55 (int 0))"
    using t by blast
  then have e: "applyErosion block55 1 = erode_pass block55"
    by (simp add: e0)
  have "pixel (erode_pass block55) 2 2 = (4, 5, 6, 200)"
    using t o p unfolding e by presburger
  then show ?thesis
    using h s o by simp
qed

section \<open>createDarkerColorMaskFromLayers and the trapping loop\<close>





lemma mask_dims [simp]:
  "width (createDarkerColorMaskFromLayers w h i cls) = w"
  "height (createDarkerColorMaskFromLayers w h i cls) = h"
  by (simp_all add: createDarkerColorMaskFromLayers_def Let_def)



lemma extractSingleColor_dims [simp]:
  "width (extractSingleColor src c) = width src" "height (extractSingleColor src c) = height src"
  by (simp_all add: extractSingleColor_def Let_def)

lemma extractSingleColor_wf:
  assumes "wf_image src"
  shows "wf_image (extractSingleColor src c)"
proof -
  have "length (for_each_pixel (width src) (height src) (extract_body src c)
                 (replicate (width src * height src * 4) 0)) = width src * height src * 4"
    using for_each_pixel_length [OF extract_body_shape [OF assms, where col = c]] by simp
  then show ?thesis
    by (simp add: wf_image_def extractSingleColor_def Let_def)
qed


lemma separate_fit:
  assumes "wf_image flat"
  shows "layers_fit (width flat) (height flat) (separate flat sortedColors)"
  using extractSingleColor_wf [OF assms] by (auto simp: layers_fit_def separate_def)








section \<open>analyzeColors and the significant colours\<close>

lemma for_each_pixel_product:
  "for_each_pixel w h body s = fold (\<lambda>(y, x). body x y) (List.product [0..<h] [0..<w]) s"
proof -
  have "fold (\<lambda>(y, x). body x y) (List.product ys xs) s = fold (\<lambda>y. fold (\<lambda>x. body x y) xs) ys s"
    for ys xs
    by (induction ys arbitrary: s) (simp_all add: fold_map comp_def)
  then show ?thesis by (simp add: for_each_pixel_def)
qed

lemma map_of_bump:
  "map_of (map (\<lambda>(k, e). if k = key then (k, f e) else (k, e)) cm) k' =
     (if k' = key then map_option f (map_of cm k') else map_of cm k')"
  by (induction cm) auto

lemma analyze_body_cases:
  "analyze_body img x y cm =
     (if \<not> visible_at img (y, x) then cm
      else if key_at img (y, x) \<in> fst ` set cm
           then map (\<lambda>(k, e). if k = key_at img (y, x) then (k, e\<lparr>count := count e + 1\<rparr>) else (k, e)) cm
           else cm @ [(key_at img (y, x),
                  \<lparr>r = fst (key_at img (y, x)), g = fst (snd (key_at img (y, x))),
                    b = snd (snd (key_at img (y, x))), count = 1,
                    lightness = calculateLightness (fst (key_at img (y, x)))
                       (fst (snd (key_at img (y, x)))) (snd (snd (key_at img (y, x))))\<rparr>)])"
  by (simp add: analyze_body_def Let_def key_at_def visible_at_def)

lemma analyze_body_cnt:
  "cnt (analyze_body img x y cm) k =
     cnt cm k + (if visible_at img (y, x) \<and> key_at img (y, x) = k then 1 else 0)"
proof (cases "visible_at img (y, x)")
  case False
  then show ?thesis by (simp add: analyze_body_cases)
next
  case vis: True
  let ?key = "key_at img (y, x)"
  show ?thesis
  proof (cases "?key \<in> fst ` set cm")
    case True
    then obtain e where e: "map_of cm ?key = Some e"
      by (metis domIff dom_map_of_conv_image_fst not_None_eq)
    have "analyze_body img x y cm =
        map (\<lambda>(k, e). if k = ?key then (k, e\<lparr>count := count e + 1\<rparr>) else (k, e)) cm"
      using vis True by (simp add: analyze_body_cases)
    then show ?thesis
      using vis e by (cases "?key = k") (auto simp: cnt_def map_of_bump)
  next
    case False
    then have n: "map_of cm ?key = None"
      by (simp add: map_of_eq_None_iff)
    have "\<exists>e1. analyze_body img x y cm = cm @ [(?key, e1)] \<and> count e1 = 1"
      using vis False by (simp add: analyze_body_cases)
    then obtain e1 where a: "analyze_body img x y cm = cm @ [(?key, e1)]" and c: "count e1 = 1"
      by blast
    show ?thesis
      unfolding a using vis n c
      by (auto simp: cnt_def map_add_def split: option.splits)
  qed
qed

lemma analyze_body_good:
  assumes "good_map cm"
  shows "good_map (analyze_body img x y cm)"
proof (cases "visible_at img (y, x)")
  case False
  then show ?thesis using assms by (simp add: analyze_body_cases)
next
  case vis: True
  let ?key = "key_at img (y, x)"
  show ?thesis
  proof (cases "?key \<in> fst ` set cm")
    case True
    have fsts: "fst \<circ> (\<lambda>(k, e). if k = ?key then (k, e\<lparr>count := count e + 1\<rparr>) else (k, e)) = fst"
      by (auto simp: fun_eq_iff)
    have "analyze_body img x y cm =
        map (\<lambda>(k, e). if k = ?key then (k, e\<lparr>count := count e + 1\<rparr>) else (k, e)) cm"
      using vis True by (simp add: analyze_body_cases)
    then show ?thesis
      using assms by (auto simp: good_map_def fsts split: if_splits)
  next
    case False
    then show ?thesis
      using vis assms by (auto simp: analyze_body_cases good_map_def)
  qed
qed

lemma analyze_fold:
  assumes "good_map cm"
  shows "good_map (fold (\<lambda>(y, x). analyze_body img x y) ps cm)
       \<and> cnt (fold (\<lambda>(y, x). analyze_body img x y) ps cm) k =
           cnt cm k + length (filter (\<lambda>p. visible_at img p \<and> key_at img p = k) ps)"
  using assms
proof (induction ps arbitrary: cm)
  case Nil
  then show ?case by simp
next
  case (Cons p ps)
  obtain y x where p: "p = (y, x)" by (cases p)
  from Cons.IH [OF analyze_body_good [OF Cons.prems, of img x y]]
  show ?case
    by (simp add: p analyze_body_cnt)
qed

lemma good_map_count:
  assumes "good_map cm" "e \<in> snd ` set cm"
  shows "cnt cm (r e, g e, b e) = count e \<and> 0 < count e"
proof -
  from assms(2) obtain k where ke: "(k, e) \<in> set cm" by force
  then have k: "k = (r e, g e, b e)" and c: "0 < count e"
    using assms(1) by (auto simp: good_map_def)
  have "map_of cm k = Some e"
    using assms(1) ke by (simp add: good_map_def)
  then show ?thesis using k c by (simp add: cnt_def)
qed

lemma visible_key_wf:
  assumes "wf_image img" "x < width img" "y < height img"
  shows "(visible_at img (y, x) \<and> key_at img (y, x) = (r e, g e, b e)) =
     (alpha img x y \<noteq> 0 \<and>
       (case pixel img x y of (p0, p1, p2, p3) \<Rightarrow> r e = Some p0 \<and> g e = Some p1 \<and> b e = Some p2))"
  unfolding visible_at_def key_at_def prod.case rd_px [OF assms]
  by (cases "pixel img x y") (auto simp: is0_def)

lemma analyzeColors_count:
  assumes wf: "wf_image img" and e: "e \<in> set (colors (analyzeColors img))"
  shows "count e = card (counted_pixels img e) \<and> 0 < count e"
proof -
  let ?ps = "List.product [0..<height img] [0..<width img]"
  let ?cm = "fold (\<lambda>(y, x). analyze_body img x y) ?ps []"
  let ?P = "\<lambda>p. visible_at img p \<and> key_at img p = (r e, g e, b e)"
  have g0: "good_map []" by (simp add: good_map_def)
  note f = analyze_fold [OF g0, of img ?ps "(r e, g e, b e)"]
  have "e \<in> snd ` set ?cm"
    using e by (simp add: analyzeColors_def Let_def for_each_pixel_product)
  from good_map_count [OF conjunct1 [OF f] this]
  have c: "count e = length (filter ?P ?ps)" and pos: "0 < count e"
    using f by (simp_all add: cnt_def)
  have d: "distinct ?ps" by (simp add: distinct_product)
  have "length (filter ?P ?ps) = card ({p. ?P p} \<inter> set ?ps)"
    by (rule distinct_length_filter [OF d])
  also have "{p. ?P p} \<inter> set ?ps = (\<lambda>(x, y). (y, x)) ` counted_pixels img e"
  proof (rule set_eqI)
    fix p :: "nat \<times> nat"
    obtain y x where p: "p = (y, x)" by (cases p)
    show "(p \<in> {p. ?P p} \<inter> set ?ps) = (p \<in> (\<lambda>(x, y). (y, x)) ` counted_pixels img e)"
    proof (cases "x < width img \<and> y < height img")
      case True
      then show ?thesis
        using visible_key_wf [OF wf, of x y e]
        by (auto simp: p counted_pixels_def image_iff)
    next
      case False
      then show ?thesis by (auto simp: p counted_pixels_def image_iff)
    qed
  qed
  also have "card ((\<lambda>(x, y). (y, x)) ` counted_pixels img e) = card (counted_pixels img e)"
    by (rule card_image) (auto simp: inj_on_def)
  finally show ?thesis using c pos by simp
qed

text \<open>
  Claim C10. \<open>analyzeColors\<close> returns \<open>totalPixels = width * height\<close> whatever the alpha
  values are, so that the threshold of the pipeline, \<open>max 100 (round (totalPixels *
  0.0001))\<close>, is computed from the area of the canvas; on a well-formed raster the count of
  every palette entry is the number of pixels of its colour whose alpha is not 0, and is
  positive: transparent pixels enter neither the palette nor any count.
\<close>

theorem analyzeColors_totalPixels:
  "totalPixels (analyzeColors img) = width img * height img
   \<and> minPixelThreshold (analyzeColors img)
       = max 100 (Math_round (real (width img * height img) * (1 / 10000)))
   \<and> (wf_image img \<and> e \<in> set (colors (analyzeColors img)) \<longrightarrow>
         count e = card (counted_pixels img e) \<and> 0 < count e)"
proof -
  have t: "totalPixels (analyzeColors img) = width img * height img"
    by (simp add: analyzeColors_def Let_def)
  have m: "minPixelThreshold (analyzeColors img)
       = max 100 (Math_round (real (width img * height img) * (1 / 10000)))"
    unfolding minPixelThreshold_def t ..
  show ?thesis
    using t m analyzeColors_count [of img e] by blast
qed

lemma colors_flat31t: "colors (analyzeColors flat31t) = [red1]"
proof -
  have u: "[0..<3] = [0, 1, 2]" "[0..<1] = [0]" by code_simp+
  show ?thesis
    by (simp add: analyzeColors_def flat31t_def for_each_pixel_def u analyze_body_def Let_def rd_def
        is0_def calculateLightness_def red1_def)
qed

theorem analyzeColors_totalPixels_witness:
  "wf_image flat31t \<and> red1 \<in> set (colors (analyzeColors flat31t))
   \<and> totalPixels (analyzeColors flat31t) = 3
   \<and> minPixelThreshold (analyzeColors flat31t) = 100
   \<and> card (counted_pixels flat31t red1) = 1"
proof -
  have h: "wf_image flat31t" "red1 \<in> set (colors (analyzeColors flat31t))"
    by (simp_all add: colors_flat31t) (simp add: wf_image_def flat31t_def)
  have c: "count red1 = 1" by (simp add: red1_def)
  have w: "width flat31t * height flat31t = 3" by (simp add: flat31t_def)
  have r: "Math_round (real 3 * (1 / 10000)) = 0" by (simp add: Math_round_def)
  show ?thesis
    using h analyzeColors_totalPixels [of flat31t red1] c w r by simp
qed

lemma threshold_million:
  assumes "totalPixels ca = 1000 * 1000"
  shows "minPixelThreshold ca = 100"
  by (simp add: minPixelThreshold_def assms Math_round_def)

text \<open>
  Claim C5. The filter of the pipeline keeps exactly the palette entries whose count is at
  least \<open>max 100 (round (totalPixels * 0.0001))\<close>; the threshold is 100 when there are
  1000 * 1000 pixels, so that on a 1000 by 1000 raster every colour with fewer than 100
  pixels is dropped. With more than 10 entries left the pipeline fails with
  \<open>TooManyColors\<close>, with none left it fails with \<open>NoSignificantColors\<close>, and otherwise it
  goes on with the entries left.
\<close>

theorem selectSignificantColors_semantics:
  "set (significantColors ca) =
      {c \<in> set (colors ca). max 100 (Math_round (real (totalPixels ca) * (1 / 10000))) \<le> int (count c)}
   \<and> (c \<in> set (colors ca) \<and> int (count c) < max 100 (Math_round (real (totalPixels ca) * (1 / 10000)))
        \<longrightarrow> c \<notin> set (significantColors ca))
   \<and> (width img = 1000 \<and> height img = 1000 \<and> count c < 100
        \<longrightarrow> c \<notin> set (significantColors (analyzeColors img)))
   \<and> (10 < length (significantColors ca)
        \<longrightarrow> selectSignificantColors ca = Inl (TooManyColors (length (significantColors ca))))
   \<and> (length (significantColors ca) = 0 \<longrightarrow> selectSignificantColors ca = Inl NoSignificantColors)
   \<and> (0 < length (significantColors ca) \<and> length (significantColors ca) \<le> 10
        \<longrightarrow> selectSignificantColors ca = Inr (significantColors ca))"
proof -
  have a: "set (significantColors ca) =
      {c \<in> set (colors ca). max 100 (Math_round (real (totalPixels ca) * (1 / 10000))) \<le> int (count c)}"
    by (simp add: significantColors_def minPixelThreshold_def)
  have b: "c \<in> set (colors ca) \<and> int (count c) < max 100 (Math_round (real (totalPixels ca) * (1 / 10000)))
        \<longrightarrow> c \<notin> set (significantColors ca)"
    unfolding a by auto
  have c: "width img = 1000 \<and> height img = 1000 \<and> count c < 100
        \<longrightarrow> c \<notin> set (significantColors (analyzeColors img))"
  proof
    assume h: "width img = 1000 \<and> height img = 1000 \<and> count c < 100"
    then have "totalPixels (analyzeColors img) = 1000 * 1000"
      by (simp add: analyzeColors_def Let_def)
    from threshold_million [OF this] h
    show "c \<notin> set (significantColors (analyzeColors img))"
      by (simp add: significantColors_def)
  qed
  have d: "10 < length (significantColors ca)
        \<longrightarrow> selectSignificantColors ca = Inl (TooManyColors (length (significantColors ca)))"
    by (simp add: selectSignificantColors_def Let_def)
  have e: "length (significantColors ca) = 0 \<longrightarrow> selectSignificantColors ca = Inl NoSignificantColors"
    by (simp add: selectSignificantColors_def Let_def)
  have f: "0 < length (significantColors ca) \<and> length (significantColors ca) \<le> 10
        \<longrightarrow> selectSignificantColors ca = Inr (significantColors ca)"
    by (auto simp: selectSignificantColors_def Let_def)
  show ?thesis
    using a b c d e f by blast
qed

theorem selectSignificantColors_semantics_witness:
  "entry_with 99 \<in> set (colors analysis2)
   \<and> int (count (entry_with 99)) < max 100 (Math_round (real (totalPixels analysis2) * (1 / 10000)))
   \<and> entry_with 99 \<notin> set (significantColors analysis2)
   \<and> significantColors analysis2 = [entry_with 100]
   \<and> selectSignificantColors analysis2 = Inr [entry_with 100]
   \<and> length (significantColors analysis11) = 11
   \<and> selectSignificantColors analysis11 = Inl (TooManyColors 11)
   \<and> selectSignificantColors analysis1 = Inl NoSignificantColors"
proof -
  have th: "max 100 (Math_round (real (totalPixels analysis2) * (1 / 10000))) = 100"
    by (simp add: analysis2_def Math_round_def)
  have h: "entry_with 99 \<in> set (colors analysis2)"
    "int (count (entry_with 99)) < max 100 (Math_round (real (totalPixels analysis2) * (1 / 10000)))"
    unfolding th by (simp_all add: analysis2_def entry_with_def)
  have s2: "significantColors analysis2 = [entry_with 100]"
    by (simp add: significantColors_def threshold_million analysis2_def entry_with_def)
  have s11: "significantColors analysis11 = replicate 11 (entry_with 5000)"
    by (simp add: significantColors_def threshold_million analysis11_def entry_with_def)
  have s0: "significantColors analysis1 = []"
    by (simp add: significantColors_def threshold_million analysis1_def entry_with_def)
  let ?ca0 = analysis1
  have l2: "0 < length (significantColors analysis2) \<and> length (significantColors analysis2) \<le> 10"
    by (simp add: s2)
  have l11: "10 < length (significantColors analysis11)" "length (significantColors analysis11) = 11"
    by (simp_all add: s11)
  have l0: "length (significantColors ?ca0) = 0"
    by (simp add: s0)
  have a: "entry_with 99 \<notin> set (significantColors analysis2)"
    using selectSignificantColors_semantics [of analysis2 "entry_with 99" flat31t] h by blast
  have "selectSignificantColors analysis2 = Inr (significantColors analysis2)"
    using selectSignificantColors_semantics [of analysis2 "entry_with 99" flat31t] l2 by blast
  then have b: "selectSignificantColors analysis2 = Inr [entry_with 100]"
    by (simp add: s2)
  have "selectSignificantColors analysis11 = Inl (TooManyColors (length (significantColors analysis11)))"
    using selectSignificantColors_semantics [of analysis11 "entry_with 99" flat31t] l11(1) by blast
  then have c: "selectSignificantColors analysis11 = Inl (TooManyColors 11)"
    by (simp add: l11(2))
  have d: "selectSignificantColors ?ca0 = Inl NoSignificantColors"
    using selectSignificantColors_semantics [of ?ca0 "entry_with 99" flat31t] l0 by blast
  show ?thesis
    using h a b c d s2 l11(2) by simp
qed

section \<open>TrapSizeParser\<close>


















end
